theory Spec2Isabelle
  imports Main "HOL-Library.Char_ord" "HOL-Library.Sublist"
begin

section \<open>Python values and errors\<close>

text \<open>
  The exceptions the program can raise. \<open>LeadingOperator\<close>, \<open>UnmatchedParenthesis\<close>,
  \<open>InvalidParenthesis\<close>, \<open>IncompleteTable\<close>, \<open>OverdefinedTable\<close> and
  \<open>InconsistentRow\<close> are the \<open>ValueError\<close>s of the source, told apart by their
  message; \<open>UnsupportedOperator\<close> is its \<open>NotImplementedError\<close>. \<open>MissingVariable\<close> is
  the \<open>KeyError\<close> of a dictionary lookup, \<open>AttributeError\<close> the reading of
  \<open>.output\<close> of an input that is \<open>None\<close>, \<open>IndexError\<close> an index out of range and
  \<open>IntValueError\<close> the \<open>ValueError\<close> of \<open>int()\<close>.
\<close>

datatype error =
    IndexError
  | LeadingOperator
  | UnmatchedParenthesis
  | InvalidParenthesis
  | UnsupportedOperator
  | MissingVariable
  | AttributeError
  | IntValueError
  | IncompleteTable
  | OverdefinedTable
  | InconsistentRow nat

text \<open>
  An output of a gate is a Python object: the integer of an input, or the \<open>bool\<close> that
  \<open>not\<close> returns (\<open>and\<close> and \<open>or\<close> return one of their operands).
\<close>

datatype pyval = PyInt int | PyBool bool

fun truthy :: "pyval \<Rightarrow> bool" where
  "truthy (PyInt n) = (n \<noteq> 0)"
| "truthy (PyBool b) = b"

definition py_not :: "pyval \<Rightarrow> pyval" where
  "py_not a = PyBool (\<not> truthy a)"

section \<open>Strings\<close>

text \<open>
  Strings are lists of characters, read as ASCII text: \<open>isalpha\<close> holds of the 52
  letters, \<open>upper\<close> maps \<open>a\<close>..\<open>z\<close> to \<open>A\<close>..\<open>Z\<close>, and \<open>isspace\<close> holds of the
  ASCII characters that \<open>str.strip()\<close> and \<open>str.split()\<close> treat as whitespace.
\<close>

definition isalpha :: "char \<Rightarrow> bool" where
  "isalpha c = (let n = (of_char c :: nat) in (65 \<le> n \<and> n \<le> 90) \<or> (97 \<le> n \<and> n \<le> 122))"

definition upper :: "char \<Rightarrow> char" where
  "upper c = (let n = (of_char c :: nat) in if 97 \<le> n \<and> n \<le> 122 then char_of (n - 32) else c)"

definition isspace :: "char \<Rightarrow> bool" where
  "isspace c = (let n = (of_char c :: nat) in (9 \<le> n \<and> n \<le> 13) \<or> (28 \<le> n \<and> n \<le> 32))"

abbreviation quote :: char where "quote \<equiv> CHR 0x27"
abbreviation backslash :: char where "backslash \<equiv> CHR 0x5C"

definition strip_with :: "(char \<Rightarrow> bool) \<Rightarrow> string \<Rightarrow> string" where
  "strip_with P s = rev (dropWhile P (rev (dropWhile P s)))"

definition py_strip :: "string \<Rightarrow> string" where
  "py_strip s = strip_with isspace s"

definition strip_char :: "char \<Rightarrow> string \<Rightarrow> string" where
  "strip_char c s = strip_with (\<lambda>x. x = c) s"

definition count_char :: "char \<Rightarrow> string \<Rightarrow> nat" where
  "count_char c s = length (filter (\<lambda>x. x = c) s)"

text \<open>
  Python's indexing and slicing: a negative index counts from the end; an index out of
  range raises, a slice bound out of range is clipped.
\<close>

definition py_index :: "'a list \<Rightarrow> int \<Rightarrow> error + 'a" where
  "py_index xs i =
     (if 0 \<le> i \<and> i < int (length xs) then Inr (xs ! nat i)
      else if i < 0 \<and> - int (length xs) \<le> i then Inr (xs ! nat (int (length xs) + i))
      else Inl IndexError)"

definition py_bound :: "nat \<Rightarrow> int \<Rightarrow> nat" where
  "py_bound n i = (if i < 0 then nat (max 0 (int n + i)) else min (nat i) n)"

definition slice :: "'a list \<Rightarrow> int \<Rightarrow> int \<Rightarrow> 'a list" where
  "slice xs lo hi =
     (let l = py_bound (length xs) lo; h = py_bound (length xs) hi in take (h - l) (drop l xs))"

definition slice_to :: "'a list \<Rightarrow> int \<Rightarrow> 'a list" where
  "slice_to xs hi = take (py_bound (length xs) hi) xs"

definition slice_from :: "'a list \<Rightarrow> int \<Rightarrow> 'a list" where
  "slice_from xs lo = drop (py_bound (length xs) lo) xs"

section \<open>The normalizer\<close>

text \<open>
  \<open>normalize_bool_fct_str\<close>: the chain of string methods is \<open>cleanup\<close>; the first
  loop collects the positions \<open>and_positions\<close>, the second inserts an AND marker after
  each of them, the last position first.
\<close>

definition cleanup :: "string \<Rightarrow> string" where
  "cleanup fct_str =
     strip_char CHR ''+'' (strip_char CHR ''*''
       (map (\<lambda>c. if c = CHR ''!'' then quote else c)
         (filter (\<lambda>c. c \<noteq> backslash)
           (filter (\<lambda>c. c \<noteq> CHR '' '')
             (map upper fct_str)))))"

definition needs_and :: "char \<Rightarrow> char \<Rightarrow> bool" where
  "needs_and sym_i sym_i1 =
     (if (isalpha sym_i \<or> sym_i = quote) \<and> (isalpha sym_i1 \<or> sym_i1 = CHR ''('') then True
      else if sym_i = CHR '')'' \<and> isalpha sym_i1 then True
      else False)"

definition and_positions :: "string \<Rightarrow> nat list" where
  "and_positions fct_str =
     filter (\<lambda>i. needs_and (fct_str ! i) (fct_str ! (i + 1))) [0 ..< length fct_str - 1]"

definition insert_at :: "nat \<Rightarrow> string \<Rightarrow> string" where
  "insert_at i fct_str = take (i + 1) fct_str @ ''*'' @ drop (i + 1) fct_str"

definition normalize_bool_fct_str :: "string \<Rightarrow> string" where
  "normalize_bool_fct_str fct_str =
     (let s = cleanup fct_str in fold insert_at (rev (and_positions s)) s)"

subsection \<open>The normalizer, recursively\<close>

text \<open>
  \<open>with_ands\<close> is the string that the two loops of the normalizer compute: an AND
  marker after each character whose successor calls for one. A string is \<open>settled\<close>
  when normalizing can only strip it: no character is changed by the clean-up and no
  adjacent pair needs an AND marker.
\<close>

fun with_ands :: "string \<Rightarrow> string" where
  "with_ands [] = []"
| "with_ands (a # s) = a # (if s \<noteq> [] \<and> needs_and a (hd s) then ''*'' else []) @ with_ands s"

definition plain :: "char \<Rightarrow> bool" where
  "plain c \<longleftrightarrow> upper c = c \<and> c \<noteq> CHR '' '' \<and> c \<noteq> backslash \<and> c \<noteq> CHR ''!''"

definition settled :: "string \<Rightarrow> bool" where
  "settled s \<longleftrightarrow> list_all plain s \<and> successively (\<lambda>a b. \<not> needs_and a b) s"

lemma and_positions_Cons:
  "and_positions (a # s) =
     (if s \<noteq> [] \<and> needs_and a (hd s) then [0] else []) @ map Suc (and_positions s)"
proof (cases s)
  case Nil
  then show ?thesis by (simp add: and_positions_def)
next
  case (Cons b t)
  have "[0 ..< length (a # s) - 1] = 0 # map Suc [0 ..< length s - 1]"
    using Cons by (simp add: upt_conv_Cons map_Suc_upt del: upt_Suc)
  then show ?thesis
    using Cons by (simp add: and_positions_def filter_map comp_def)
qed

lemma insert_at_Suc: "insert_at (Suc i) (a # s) = a # insert_at i s"
  by (simp add: insert_at_def)

lemma fold_insert_at_Suc: "fold insert_at (map Suc ps) (a # s) = a # fold insert_at ps s"
  by (induction ps arbitrary: s) (simp_all add: insert_at_Suc)

lemma insert_ands_eq: "fold insert_at (rev (and_positions s)) s = with_ands s"
proof (induction s)
  case Nil
  then show ?case by (simp add: and_positions_def)
next
  case (Cons a s)
  have "fold insert_at (rev (map Suc (and_positions s))) (a # s) = a # with_ands s"
    using Cons by (simp add: rev_map fold_insert_at_Suc)
  moreover have "insert_at 0 (a # with_ands s) = a # CHR ''*'' # with_ands s"
    by (simp add: insert_at_def)
  ultimately show ?case
    by (simp add: and_positions_Cons)
qed

lemma normalize_eq: "normalize_bool_fct_str s = with_ands (cleanup s)"
  by (simp add: normalize_bool_fct_str_def insert_ands_eq)

lemma upper_idem: "upper (upper c) = upper c"
proof (cases "97 \<le> (of_char c :: nat) \<and> (of_char c :: nat) \<le> 122")
  case True
  then have "(of_char c :: nat) - 32 < 256"
    by arith
  then have "(of_char (char_of ((of_char c :: nat) - 32)) :: nat) = of_char c - 32"
    by simp
  with True show ?thesis
    by (auto simp add: upper_def Let_def)
next
  case False
  then have "upper c = c"
    by (auto simp add: upper_def Let_def)
  then show ?thesis
    by simp
qed

lemma upper_quote: "upper quote = quote"
  by (simp add: upper_def)

lemma plain_consts: "plain quote" "plain (CHR ''*'')"
  by (simp_all add: plain_def upper_def)

lemma needs_and_star: "\<not> needs_and a (CHR ''*'')" "\<not> needs_and (CHR ''*'') b"
  by (simp_all add: needs_and_def isalpha_def)

lemma with_ands_Nil_iff: "with_ands s = [] \<longleftrightarrow> s = []"
  by (cases s) simp_all

lemma hd_with_ands: "hd (with_ands s) = hd s"
  by (cases s) simp_all

lemma set_with_ands: "set (with_ands s) \<subseteq> insert (CHR ''*'') (set s)"
  by (induction s) auto

lemma successively_with_ands: "successively (\<lambda>a b. \<not> needs_and a b) (with_ands s)"
  by (induction s)
    (auto simp: successively_Cons with_ands_Nil_iff hd_with_ands needs_and_star)

lemma with_ands_id: "successively (\<lambda>a b. \<not> needs_and a b) s \<Longrightarrow> with_ands s = s"
  by (induction s) (auto simp: successively_Cons)

lemma sublist_strip_with: "sublist (strip_with P s) s"
proof -
  have "sublist (rev (dropWhile P (rev (dropWhile P s)))) (dropWhile P s)"
    by (metis sublist_dropWhile sublist_rev rev_rev_ident)
  then show ?thesis
    unfolding strip_with_def using sublist_dropWhile sublist_order.order_trans by blast
qed

lemma set_strip_with: "set (strip_with P s) \<subseteq> set s"
  using sublist_strip_with set_mono_sublist by blast

lemma plain_cleanup: "list_all plain (cleanup s)"
proof -
  let ?t = "map (\<lambda>c. if c = CHR ''!'' then quote else c)
         (filter (\<lambda>c. c \<noteq> backslash) (filter (\<lambda>c. c \<noteq> CHR '' '') (map upper s)))"
  have "list_all plain ?t"
    by (auto simp: list_all_iff plain_def upper_idem upper_quote)
  moreover have "set (cleanup s) \<subseteq> set ?t"
    unfolding cleanup_def strip_char_def using set_strip_with by blast
  ultimately show ?thesis
    by (auto simp: list_all_iff)
qed

lemma settled_normalize: "settled (normalize_bool_fct_str s)"
proof -
  have "list_all plain (with_ands (cleanup s))"
    using plain_cleanup [of s] set_with_ands [of "cleanup s"] plain_consts
    by (auto simp: list_all_iff)
  then show ?thesis
    by (simp add: settled_def normalize_eq successively_with_ands)
qed

lemma settled_sublist: "settled t \<Longrightarrow> sublist s t \<Longrightarrow> settled s"
  by (auto simp: settled_def sublist_def list_all_iff successively_append_iff)

lemma cleanup_plain: "list_all plain s \<Longrightarrow> cleanup s = strip_char CHR ''+'' (strip_char CHR ''*'' s)"
proof -
  assume a: "list_all plain s"
  have 1: "map upper s = s" using a by (simp add: list_all_iff plain_def map_idI)
  have 2: "filter (\<lambda>c. c \<noteq> CHR '' '') s = s" using a by (simp add: list_all_iff plain_def)
  have 3: "filter (\<lambda>c. c \<noteq> backslash) s = s" using a by (simp add: list_all_iff plain_def)
  have 4: "map (\<lambda>c. if c = CHR ''!'' then quote else c) s = s"
    using a by (simp add: list_all_iff plain_def map_idI)
  show ?thesis by (simp add: cleanup_def 1 2 3 4)
qed

lemma normalize_settled:
  assumes "settled s"
  shows "normalize_bool_fct_str (py_strip s) = strip_char CHR ''+'' (strip_char CHR ''*'' (py_strip s))"
proof -
  have s1: "settled (py_strip s)"
    using assms settled_sublist sublist_strip_with py_strip_def by metis
  then have c: "cleanup (py_strip s) = strip_char CHR ''+'' (strip_char CHR ''*'' (py_strip s))"
    by (simp add: cleanup_plain settled_def)
  have "sublist (strip_char CHR ''+'' (strip_char CHR ''*'' (py_strip s))) (py_strip s)"
    unfolding strip_char_def using sublist_strip_with sublist_order.order_trans by blast
  then have "settled (strip_char CHR ''+'' (strip_char CHR ''*'' (py_strip s)))"
    using s1 settled_sublist by blast
  then show ?thesis
    by (simp add: normalize_eq c with_ands_id settled_def)
qed

lemma sublist_normalize_settled:
  assumes "settled s"
  shows "sublist (normalize_bool_fct_str (py_strip s)) s"
proof -
  have "sublist (strip_char CHR ''+'' (strip_char CHR ''*'' (py_strip s))) (py_strip s)"
    unfolding strip_char_def using sublist_strip_with sublist_order.order_trans by blast
  moreover have "sublist (py_strip s) s"
    by (simp add: py_strip_def sublist_strip_with)
  ultimately show ?thesis
    using normalize_settled [OF assms] sublist_order.order_trans by metis
qed

section \<open>The parser\<close>

datatype operator = AND | OR | NOT | UNITY | INPUT

text \<open>
  A \<open>Gate\<close> object: its normalized expression, its operator, its two inputs (either may
  be \<open>None\<close>), the output of the last evaluation and the cached truth table.
\<close>

datatype gate = Node
  (expression: string)
  (operator: operator)
  (inp_1: "gate option")
  (inp_2: "gate option")
  (output_val: pyval)
  (truth_table: "(int list \<times> int) list")

text \<open>
  The scan of \<open>parse_outer_paranthesis\<close>: \<open>i\<close> is the index of the next character,
  \<open>i_open\<close>, \<open>i_close\<close> and \<open>count\<close> are the loop's variables.
\<close>

fun scan_paranthesis :: "string \<Rightarrow> int \<Rightarrow> int \<Rightarrow> int \<Rightarrow> int \<Rightarrow> error + int \<times> int" where
  "scan_paranthesis [] i i_open i_close count = Inr (i_open, i_close)"
| "scan_paranthesis (symb # rest) i i_open i_close count =
     (let i_open' = (if symb = CHR ''('' \<and> count = 0 then i else i_open);
          count' = (if symb = CHR ''('' then count + 1 else count)
      in if symb = CHR '')'' then
           (if count' - 1 = 0 then Inr (i_open', i)
            else if i_open' = - 1 then Inl InvalidParenthesis
            else scan_paranthesis rest (i + 1) i_open' i_close (count' - 1))
         else scan_paranthesis rest (i + 1) i_open' i_close count')"

definition parse_outer_paranthesis :: "string \<Rightarrow> error + int \<times> int" where
  "parse_outer_paranthesis expr = scan_paranthesis expr 0 (- 1) (- 1) 0"

text \<open>
  The third branch of the parenthesis case of \<open>Gate.__init__\<close>, up to the choice of
  the operator: the split point, moved past one complement mark, and the operator read
  after it.
\<close>

definition split_point :: "string \<Rightarrow> int \<Rightarrow> int \<Rightarrow> error + int \<times> operator" where
  "split_point self_expression i_open i_close =
     (let split_at = (if i_open > 0 then i_open - 2 else i_close) in
      case py_index self_expression (split_at + 1) of
        Inl e \<Rightarrow> Inl e
      | Inr c \<Rightarrow>
          (let split_at = (if c \<in> {quote, CHR ''!''} then split_at + 1 else split_at) in
           case py_index self_expression (split_at + 1) of
             Inl e \<Rightarrow> Inl e
           | Inr c' \<Rightarrow>
               if c' = CHR ''*'' then Inr (split_at, AND)
               else if c' = CHR ''+'' then Inr (split_at, OR)
               else Inl UnsupportedOperator))"

definition fresh :: "string \<Rightarrow> operator \<Rightarrow> gate option \<Rightarrow> gate option \<Rightarrow> gate" where
  "fresh expr opr g1 g2 = Node expr opr g1 g2 (PyInt 0) []"

function Gate :: "string \<Rightarrow> error + gate" where
  "Gate raw =
     (let self_expression = normalize_bool_fct_str (py_strip raw) in
      if self_expression = [] then Inl IndexError
      else if hd self_expression \<in> {quote, CHR ''*'', CHR ''+'', CHR ''!''} then Inl LeadingOperator
      else if count_char CHR ''('' self_expression \<noteq> 0 then
        (if count_char CHR ''('' self_expression \<noteq> count_char CHR '')'' self_expression
         then Inl UnmatchedParenthesis
         else case parse_outer_paranthesis self_expression of
           Inl e \<Rightarrow> Inl e
         | Inr (i_open, i_close) \<Rightarrow>
             if i_open = 0 \<and> i_close = int (length self_expression) - 2 then
               (case Gate (slice self_expression 1 (- 2)) of
                  Inl e \<Rightarrow> Inl e
                | Inr g \<Rightarrow> Inr (fresh self_expression NOT (Some g) None))
             else if i_open = 0 \<and> i_close = int (length self_expression) - 1 then
               (case Gate (slice self_expression 1 (- 1)) of
                  Inl e \<Rightarrow> Inl e
                | Inr g \<Rightarrow> Inr (fresh self_expression UNITY (Some g) None))
             else
               (case split_point self_expression i_open i_close of
                  Inl e \<Rightarrow> Inl e
                | Inr (split_at, opr) \<Rightarrow>
                    (case (if slice_to self_expression (split_at + 1) = [] then Inr None
                           else case Gate (slice_to self_expression (split_at + 1)) of
                                  Inl e \<Rightarrow> Inl e | Inr g \<Rightarrow> Inr (Some g)) of
                       Inl e \<Rightarrow> Inl e
                     | Inr g1 \<Rightarrow>
                         (case (if slice_from self_expression (split_at + 1) = [] then Inr None
                                else case Gate (slice_from self_expression (split_at + 1)) of
                                       Inl e \<Rightarrow> Inl e | Inr g \<Rightarrow> Inr (Some g)) of
                            Inl e \<Rightarrow> Inl e
                          | Inr g2 \<Rightarrow> Inr (fresh self_expression opr g1 g2)))))
      else if count_char CHR ''+'' self_expression \<noteq> 0 then
        (case Gate (takeWhile (\<lambda>c. c \<noteq> CHR ''+'') self_expression) of
           Inl e \<Rightarrow> Inl e
         | Inr g1 \<Rightarrow>
             (case Gate (drop 1 (dropWhile (\<lambda>c. c \<noteq> CHR ''+'') self_expression)) of
                Inl e \<Rightarrow> Inl e
              | Inr g2 \<Rightarrow> Inr (fresh self_expression OR (Some g1) (Some g2))))
      else if count_char CHR ''*'' self_expression \<noteq> 0 then
        (case Gate (takeWhile (\<lambda>c. c \<noteq> CHR ''*'') self_expression) of
           Inl e \<Rightarrow> Inl e
         | Inr g1 \<Rightarrow>
             (case Gate (drop 1 (dropWhile (\<lambda>c. c \<noteq> CHR ''*'') self_expression)) of
                Inl e \<Rightarrow> Inl e
              | Inr g2 \<Rightarrow> Inr (fresh self_expression AND (Some g1) (Some g2))))
      else if count_char quote self_expression + count_char CHR ''!'' self_expression \<noteq> 0 then
        (case Gate [hd self_expression] of
           Inl e \<Rightarrow> Inl e
         | Inr g \<Rightarrow>
             Inr (fresh self_expression
                   (if (count_char quote self_expression + count_char CHR ''!'' self_expression) mod 2 \<noteq> 0
                    then NOT else UNITY) (Some g) None))
      else Inr (fresh self_expression INPUT None None))"
  by pat_completeness auto

subsection \<open>Termination of the parser\<close>

text \<open>
  Every recursive call of \<open>Gate\<close> is on a proper contiguous part of the normalized
  expression, which normalizing again cannot lengthen.
\<close>

lemma Gate_measure:
  assumes "x = normalize_bool_fct_str (py_strip raw)" "sublist s x" "length s < length x"
  shows "(s, raw) \<in> measure (\<lambda>raw. length (normalize_bool_fct_str (py_strip raw)))"
proof -
  have "settled s"
    using assms(1,2) settled_normalize settled_sublist by blast
  then have "length (normalize_bool_fct_str (py_strip s)) \<le> length s"
    using sublist_normalize_settled sublist_length_le by blast
  then show ?thesis using assms(1,3) by simp
qed

lemma sublist_slice: "sublist (slice x lo hi) x"
  unfolding slice_def Let_def
  using sublist_take sublist_drop sublist_order.order_trans by blast

lemma py_index_operator:
  assumes "py_index x k = Inr c" "c = CHR ''*'' \<or> c = CHR ''+''"
    and "hd x \<noteq> CHR ''*''" "hd x \<noteq> CHR ''+''"
  shows "0 < py_bound (length x) k \<and> py_bound (length x) k < length x"
proof -
  define j where "j = (if k < 0 then int (length x) + k else k)"
  have j: "0 \<le> j" "j < int (length x)" "c = x ! nat j"
    using assms(1) by (auto simp: py_index_def j_def split: if_splits)
  have b: "py_bound (length x) k = nat j"
    using j by (auto simp: py_bound_def j_def)
  have "nat j \<noteq> 0"
  proof
    assume "nat j = 0"
    then have "c = hd x" using j by (cases x) auto
    then show False using assms by auto
  qed
  then show ?thesis using b j by auto
qed

lemma split_point_bound:
  assumes "split_point x i_open i_close = Inr (s, opr)"
    and "hd x \<noteq> CHR ''*''" "hd x \<noteq> CHR ''+''"
  shows "0 < py_bound (length x) (s + 1) \<and> py_bound (length x) (s + 1) < length x"
  using assms(1) py_index_operator [OF _ _ assms(2,3)]
  by (auto simp: split_point_def Let_def split: sum.splits if_splits)

lemma count_char_pos: "count_char c s \<noteq> 0 \<longleftrightarrow> c \<in> set s"
  by (induction s) (auto simp: count_char_def)

lemma length_takeWhile_less: "c \<in> set s \<Longrightarrow> length (takeWhile (\<lambda>x. x \<noteq> c) s) < length s"
  by (induction s) auto

lemma length_drop1_dropWhile:
  assumes "s \<noteq> []"
  shows "length (drop 1 (dropWhile P s)) < length s"
proof -
  have "length (dropWhile P s) \<le> length s"
    by (rule length_dropWhile_le)
  moreover have "0 < length s"
    using assms by simp
  ultimately show ?thesis
    unfolding length_drop by arith
qed

lemma sublist_drop1_dropWhile: "sublist (drop 1 (dropWhile P s)) s"
  using sublist_drop sublist_dropWhile sublist_order.order_trans by blast

lemma length_slice_1: "x \<noteq> [] \<Longrightarrow> length (slice x 1 hi) < length x"
  by (cases x) (auto simp: slice_def py_bound_def Let_def)

lemma single_head:
  assumes "x \<noteq> []" "hd x \<noteq> c" "hd x \<noteq> d" "count_char c x + count_char d x \<noteq> 0"
  shows "sublist [hd x] x \<and> length [hd x] < length x"
proof (cases x)
  case Nil
  then show ?thesis using assms by simp
next
  case (Cons a t)
  have "t \<noteq> []"
    using assms Cons by (auto simp: count_char_def)
  moreover have "sublist [a] (a # t)"
    by (simp add: sublist_Cons_right)
  ultimately show ?thesis using Cons by simp
qed

termination Gate
proof (relation "measure (\<lambda>raw. length (normalize_bool_fct_str (py_strip raw)))", goal_cases)
  case 1
  show ?case by simp
next
  case (2 raw x b xa y)
  show ?case
    using 2(1) sublist_slice length_slice_1 [OF 2(2)] by (rule Gate_measure)
next
  case (3 raw x b xa y)
  show ?case
    using 3(1) sublist_slice length_slice_1 [OF 3(2)] by (rule Gate_measure)
next
  case (4 raw x b xa y ba xaa ya)
  then have "py_bound (length x) (xaa + 1) < length x"
    using split_point_bound [of x xa y xaa ya] by auto
  then have "length (slice_to x (xaa + 1)) < length x"
    by (simp add: slice_to_def)
  moreover have "sublist (slice_to x (xaa + 1)) x"
    by (simp add: slice_to_def)
  ultimately show ?case
    using 4(1) Gate_measure by blast
next
  case (5 raw x b xa y ba xaa ya bb)
  then have "0 < py_bound (length x) (xaa + 1)"
    using split_point_bound [of x xa y xaa ya] by auto
  then have "length (slice_from x (xaa + 1)) < length x"
    using 5(2) by (simp add: slice_from_def)
  moreover have "sublist (slice_from x (xaa + 1)) x"
    by (simp add: slice_from_def)
  ultimately show ?case
    using 5(1) Gate_measure by blast
next
  case (6 raw x)
  then have "CHR ''+'' \<in> set x"
    using count_char_pos by blast
  then have "length (takeWhile (\<lambda>c. c \<noteq> CHR ''+'') x) < length x"
    by (rule length_takeWhile_less)
  then show ?case
    using 6(1) Gate_measure sublist_takeWhile by blast
next
  case (7 raw x b)
  show ?case
    using 7(1) sublist_drop1_dropWhile length_drop1_dropWhile [OF 7(2)] by (rule Gate_measure)
next
  case (8 raw x)
  then have "CHR ''*'' \<in> set x"
    using count_char_pos by blast
  then have "length (takeWhile (\<lambda>c. c \<noteq> CHR ''*'') x) < length x"
    by (rule length_takeWhile_less)
  then show ?case
    using 8(1) Gate_measure sublist_takeWhile by blast
next
  case (9 raw x b)
  show ?case
    using 9(1) sublist_drop1_dropWhile length_drop1_dropWhile [OF 9(2)] by (rule Gate_measure)
next
  case (10 raw x)
  then have "sublist [hd x] x \<and> length [hd x] < length x"
    by (intro single_head [of x quote "CHR ''!''"]) auto
  then show ?case
    using 10(1) Gate_measure by blast
qed

declare Gate.simps [simp del]

section \<open>The evaluator\<close>

text \<open>
  \<open>Gate.update\<close>: both inputs are updated first, where there are any, then the
  node's own output is set. \<open>and\<close> and \<open>or\<close> read \<open>inp_2.output\<close> only when the
  first operand does not decide the result.
\<close>

definition child_output :: "gate option \<Rightarrow> error + pyval" where
  "child_output inp = (case inp of None \<Rightarrow> Inl AttributeError | Some g \<Rightarrow> Inr (output_val g))"

definition new_output ::
  "operator \<Rightarrow> string \<Rightarrow> gate option \<Rightarrow> gate option \<Rightarrow> (string \<rightharpoonup> pyval) \<Rightarrow> error + pyval" where
  "new_output opr expr i1 i2 inputs =
     (case opr of
        AND \<Rightarrow>
          (case child_output i1 of
             Inl e \<Rightarrow> Inl e
           | Inr a \<Rightarrow> if truthy a then child_output i2 else Inr a)
      | OR \<Rightarrow>
          (case child_output i1 of
             Inl e \<Rightarrow> Inl e
           | Inr a \<Rightarrow> if truthy a then Inr a else child_output i2)
      | NOT \<Rightarrow>
          (case child_output i1 of
             Inl e \<Rightarrow> Inl e
           | Inr a \<Rightarrow> Inr (py_not a))
      | INPUT \<Rightarrow>
          (case inputs expr of
             None \<Rightarrow> Inl MissingVariable
           | Some v \<Rightarrow> Inr v)
      | UNITY \<Rightarrow> child_output i1)"

fun update :: "gate \<Rightarrow> (string \<rightharpoonup> pyval) \<Rightarrow> error + gate" where
  "update (Node expr opr i1 i2 out tt) inputs =
     (case (case i1 of
              None \<Rightarrow> Inr None
            | Some g \<Rightarrow> (case update g inputs of Inl e \<Rightarrow> Inl e | Inr g' \<Rightarrow> Inr (Some g'))) of
        Inl e \<Rightarrow> Inl e
      | Inr i1' \<Rightarrow>
          (case (case i2 of
                   None \<Rightarrow> Inr None
                 | Some g \<Rightarrow> (case update g inputs of Inl e \<Rightarrow> Inl e | Inr g' \<Rightarrow> Inr (Some g'))) of
             Inl e \<Rightarrow> Inl e
           | Inr i2' \<Rightarrow>
               (case new_output opr expr i1' i2' inputs of
                  Inl e \<Rightarrow> Inl e
                | Inr v \<Rightarrow> Inr (Node expr opr i1' i2' v tt))))"

fun normalize_bool :: "pyval \<Rightarrow> int" where
  "normalize_bool (PyBool True) = 1"
| "normalize_bool (PyBool False) = 0"
| "normalize_bool (PyInt n) = n"

section \<open>The truth table\<close>

text \<open>
  \<open>itertools.product(pool, repeat=n)\<close>, as the library documents it: starting from the
  empty tuple, each of the \<open>n\<close> pools extends every tuple so far by each of its elements.
\<close>

definition product_step :: "'a list \<Rightarrow> 'a list list \<Rightarrow> 'a list list" where
  "product_step pool result = concat (map (\<lambda>x. map (\<lambda>y. x @ [y]) pool) result)"

definition itertools_product :: "'a list \<Rightarrow> nat \<Rightarrow> 'a list list" where
  "itertools_product pool n = (product_step pool ^^ n) [[]]"

text \<open>
  The symbols are the distinct letters of the text, sorted in reverse; each is a string
  of one character.
\<close>

definition extract_input_symbols :: "string \<Rightarrow> string list" where
  "extract_input_symbols fct_str = map (\<lambda>c. [c]) (rev (sort (remdups (filter isalpha fct_str))))"

text \<open>\<open>dict(zip(keys, values))\<close>: a later pair overrides an earlier one.\<close>

definition dict_zip :: "'k list \<Rightarrow> 'v list \<Rightarrow> ('k \<rightharpoonup> 'v)" where
  "dict_zip ks vs = fold (\<lambda>kv m. m(fst kv \<mapsto> snd kv)) (zip ks vs) Map.empty"

fun table_loop ::
  "gate \<Rightarrow> string list \<Rightarrow> int list list \<Rightarrow> (int list \<times> int) list \<Rightarrow> error + gate \<times> (int list \<times> int) list" where
  "table_loop circuit input_symbols [] table = Inr (circuit, table)"
| "table_loop circuit input_symbols (inp # rest) table =
     (case update circuit (dict_zip input_symbols (map PyInt inp)) of
        Inl e \<Rightarrow> Inl e
      | Inr circuit' \<Rightarrow>
          table_loop circuit' input_symbols rest
            (table @ [(inp, normalize_bool (output_val circuit'))]))"

definition set_truth_table :: "gate \<Rightarrow> (int list \<times> int) list \<Rightarrow> gate" where
  "set_truth_table g table =
     Node (expression g) (operator g) (inp_1 g) (inp_2 g) (output_val g) table"

definition generate_truth_table :: "gate \<Rightarrow> error + gate" where
  "generate_truth_table circuit =
     (let fct_str = expression circuit;
          input_symbols = extract_input_symbols fct_str;
          n_sym = length input_symbols
      in case table_loop circuit input_symbols (itertools_product [0, 1] n_sym) [] of
           Inl e \<Rightarrow> Inl e
         | Inr (circuit', table) \<Rightarrow> Inr (set_truth_table circuit' table))"

section \<open>The minterm builder\<close>

fun sequence :: "(error + 'a) list \<Rightarrow> error + 'a list" where
  "sequence [] = Inr []"
| "sequence (r # rs) =
     (case r of
        Inl e \<Rightarrow> Inl e
      | Inr x \<Rightarrow> (case sequence rs of Inl e \<Rightarrow> Inl e | Inr xs \<Rightarrow> Inr (x # xs)))"

fun py_join :: "string \<Rightarrow> string list \<Rightarrow> string" where
  "py_join sep [] = []"
| "py_join sep [x] = x"
| "py_join sep (x # y # xs) = x @ sep @ py_join sep (y # xs)"

definition default_symbols :: "nat \<Rightarrow> string list" where
  "default_symbols n_sym = rev (map (\<lambda>c. [c]) (take n_sym ''ABCDEFGHIJKLMNOPQRSTUVWXYZ''))"

definition literal :: "string list \<Rightarrow> int list \<Rightarrow> nat \<Rightarrow> error + string" where
  "literal input_symbols inp i =
     (if inp ! i \<noteq> 0 then py_index input_symbols (int i)
      else case py_index input_symbols (int i) of
             Inl e \<Rightarrow> Inl e
           | Inr s \<Rightarrow> Inr (s @ [quote]))"

definition row_term :: "string list \<Rightarrow> int list \<Rightarrow> error + string" where
  "row_term input_symbols inp =
     (case sequence (map (literal input_symbols inp) [0 ..< length inp]) of
        Inl e \<Rightarrow> Inl e
      | Inr row \<Rightarrow> Inr (concat row))"

fun min_terms_loop :: "(int list \<times> int) list \<Rightarrow> string list \<Rightarrow> string list \<Rightarrow> error + string list" where
  "min_terms_loop [] input_symbols min_terms = Inr min_terms"
| "min_terms_loop (line # rest) input_symbols min_terms =
     (if snd line \<noteq> 0 then
        (case row_term input_symbols (fst line) of
           Inl e \<Rightarrow> Inl e
         | Inr t \<Rightarrow> min_terms_loop rest input_symbols (min_terms @ [t]))
      else min_terms_loop rest input_symbols min_terms)"

definition build_minterms :: "(int list \<times> int) list \<Rightarrow> string list option \<Rightarrow> error + string" where
  "build_minterms table input_symbols =
     (case (case input_symbols of
              None \<Rightarrow>
                (case py_index table 0 of
                   Inl e \<Rightarrow> Inl e
                 | Inr line \<Rightarrow> Inr (default_symbols (length (fst line))))
            | Some syms \<Rightarrow> Inr syms) of
        Inl e \<Rightarrow> Inl e
      | Inr syms \<Rightarrow>
          (case min_terms_loop table syms [] of
             Inl e \<Rightarrow> Inl e
           | Inr min_terms \<Rightarrow> Inr (py_join '' + '' (rev min_terms))))"

text \<open>
  \<open>sum_of_min_terms\<close> fills the circuit's table when it is empty; the circuit is
  returned with the string.
\<close>

definition sum_of_min_terms :: "gate \<Rightarrow> error + string \<times> gate" where
  "sum_of_min_terms circuit =
     (case (if length (truth_table circuit) = 0 then generate_truth_table circuit
            else Inr circuit) of
        Inl e \<Rightarrow> Inl e
      | Inr circuit' \<Rightarrow>
          (case build_minterms (truth_table circuit')
                  (Some (extract_input_symbols (expression circuit'))) of
             Inl e \<Rightarrow> Inl e
           | Inr min_terms \<Rightarrow> Inr (''F = '' @ min_terms, circuit')))"

section \<open>The table loader\<close>

text \<open>
  \<open>str.split()\<close> cuts a line at runs of whitespace; \<open>int()\<close> reads an optional sign and
  decimal digits, which single underscores may separate.
\<close>

fun split_loop :: "string \<Rightarrow> string \<Rightarrow> string list" where
  "split_loop cur [] = (if cur = [] then [] else [cur])"
| "split_loop cur (c # s) =
     (if isspace c then (if cur = [] then split_loop [] s else cur # split_loop [] s)
      else split_loop (cur @ [c]) s)"

definition py_split :: "string \<Rightarrow> string list" where
  "py_split s = split_loop [] s"

definition isdigit :: "char \<Rightarrow> bool" where
  "isdigit c = (let n = (of_char c :: nat) in 48 \<le> n \<and> n \<le> 57)"

definition valid_digits :: "string \<Rightarrow> bool" where
  "valid_digits body \<longleftrightarrow>
     body \<noteq> [] \<and> list_all (\<lambda>c. isdigit c \<or> c = CHR ''_'') body \<and>
     isdigit (hd body) \<and> isdigit (last body) \<and>
     successively (\<lambda>a b. \<not> (a = CHR ''_'' \<and> b = CHR ''_'')) body"

definition decimal_value :: "string \<Rightarrow> int" where
  "decimal_value body =
     foldl (\<lambda>acc c. 10 * acc + (int (of_char c) - 48)) 0 (filter isdigit body)"

definition py_int :: "string \<Rightarrow> error + int" where
  "py_int t =
     (let neg = (t \<noteq> [] \<and> hd t = CHR ''-'');
          body = (if t \<noteq> [] \<and> (hd t = CHR ''-'' \<or> hd t = CHR ''+'') then tl t else t)
      in if valid_digits body
         then Inr (if neg then - decimal_value body else decimal_value body)
         else Inl IntValueError)"

definition parse_line :: "string \<Rightarrow> error + int list \<times> int" where
  "parse_line line =
     (let line' = py_split (py_strip line) in
      case sequence (map py_int (butlast line')) of
        Inl e \<Rightarrow> Inl e
      | Inr inp \<Rightarrow>
          (case py_index line' (- 1) of
             Inl e \<Rightarrow> Inl e
           | Inr t \<Rightarrow> (case py_int t of Inl e \<Rightarrow> Inl e | Inr out \<Rightarrow> Inr (inp, out))))"

fun check_loop :: "(int list \<times> int) list \<Rightarrow> nat \<Rightarrow> int list list \<Rightarrow> error + unit" where
  "check_loop table i [] = Inr ()"
| "check_loop table i (inp # rest) =
     (case py_index table (int i) of
        Inl e \<Rightarrow> Inl e
      | Inr line \<Rightarrow>
          if fst line \<noteq> inp then Inl (InconsistentRow (i + 1))
          else check_loop table (i + 1) rest)"

definition check_table :: "(int list \<times> int) list \<Rightarrow> nat \<Rightarrow> error + unit" where
  "check_table table n_inp = check_loop table 0 (itertools_product [0, 1] n_inp)"

text \<open>The loader, from the lines that \<open>readlines()\<close> returned.\<close>

definition read_table_from_file :: "string list \<Rightarrow> error + (int list \<times> int) list" where
  "read_table_from_file lines =
     (case py_index lines 0 of
        Inl e \<Rightarrow> Inl e
      | Inr first_line \<Rightarrow>
          (case parse_line first_line of
             Inl e \<Rightarrow> Inl e
           | Inr line_1 \<Rightarrow>
               (let n_inp = length (fst line_1) in
                if length lines < 2 ^ n_inp then Inl IncompleteTable
                else if length lines > 2 ^ n_inp then Inl OverdefinedTable
                else case sequence (map parse_line (drop 1 lines)) of
                       Inl e \<Rightarrow> Inl e
                     | Inr rest \<Rightarrow>
                         (let table = [line_1] @ rest in
                          case check_table table n_inp of
                            Inl e \<Rightarrow> Inl e
                          | Inr u \<Rightarrow> Inr table))))"

section \<open>Worked examples\<close>

text \<open>
  C9. Normalizing the raw text \<open>a!b + c\<close> gives \<open>A'*B+C\<close>: upper case, no blanks,
  \<open>!\<close> as a postfix complement mark, and an AND marker between that mark and \<open>B\<close>.
\<close>

theorem normalize_example:
  "normalize_bool_fct_str ''a!b + c'' = [CHR ''A'', quote, CHR ''*'', CHR ''B'', CHR ''+'', CHR ''C'']"
  by code_simp

text \<open>
  C4. The expression \<open>A+B\<close> parses to an OR of two inputs; its symbols are \<open>B\<close>,
  \<open>A\<close> in this order, its table is \<open>(0,0) \<rightarrow> 0\<close>, \<open>(0,1) \<rightarrow> 1\<close>, \<open>(1,0) \<rightarrow> 1\<close>,
  \<open>(1,1) \<rightarrow> 1\<close>, and its sum of minterms is \<open>F = BA + BA' + B'A\<close>.
\<close>

theorem a_or_b_example:
  "\<exists>g g'. Gate ''A+B'' = Inr g
     \<and> g = fresh ''A+B'' OR (Some (fresh ''A'' INPUT None None)) (Some (fresh ''B'' INPUT None None))
     \<and> extract_input_symbols (expression g) = [''B'', ''A'']
     \<and> generate_truth_table g = Inr g'
     \<and> truth_table g' = [([0, 0], 0), ([0, 1], 1), ([1, 0], 1), ([1, 1], 1)]
     \<and> map_sum id fst (sum_of_min_terms g)
         = Inr (''F = BA + BA'' @ [quote] @ '' + B'' @ [quote] @ ''A'')"
proof -
  let ?g = "fresh ''A+B'' OR (Some (fresh ''A'' INPUT None None)) (Some (fresh ''B'' INPUT None None))"
  have 1: "Gate ''A+B'' = Inr ?g"
    by code_simp
  have 2: "extract_input_symbols (expression ?g) = [''B'', ''A'']"
    by code_simp
  have 3: "map_sum id truth_table (generate_truth_table ?g)
             = Inr [([0, 0], 0), ([0, 1], 1), ([1, 0], 1), ([1, 1], 1)]"
    by code_simp
  have 4: "map_sum id fst (sum_of_min_terms ?g)
             = Inr (''F = BA + BA'' @ [quote] @ '' + B'' @ [quote] @ ''A'')"
    by code_simp
  from 3 obtain g' where "generate_truth_table ?g = Inr g'"
    and "truth_table g' = [([0, 0], 0), ([0, 1], 1), ([1, 0], 1), ([1, 1], 1)]"
    by (cases "generate_truth_table ?g") auto
  with 1 2 4 show ?thesis
    by blast
qed

text \<open>
  C1, at the input \<open>A+B(C)\<close>. The normalized text is \<open>A+B*(C)\<close>; the split before
  the parenthesis makes AND the root, with \<open>A+B\<close> as its first input, so the row
  \<open>C = 0, B = 0, A = 1\<close> of the table has output 0. Under NOT > AND > OR the
  expression is \<open>A + (B * C)\<close>, which is 1 there.
\<close>

theorem split_before_parenthesis_example:
  "\<exists>g g'. Gate ''A+B(C)'' = Inr g
     \<and> expression g = ''A+B*(C)'' \<and> operator g = AND
     \<and> map_option expression (inp_1 g) = Some ''A+B''
     \<and> map_option expression (inp_2 g) = Some ''(C)''
     \<and> extract_input_symbols (expression g) = [''C'', ''B'', ''A'']
     \<and> generate_truth_table g = Inr g'
     \<and> truth_table g' ! 1 = ([0, 0, 1], 0)"
proof -
  let ?g = "fresh ''A+B*(C)'' AND
     (Some (fresh ''A+B'' OR (Some (fresh ''A'' INPUT None None)) (Some (fresh ''B'' INPUT None None))))
     (Some (fresh ''(C)'' UNITY (Some (fresh ''C'' INPUT None None)) None))"
  have 1: "Gate ''A+B(C)'' = Inr ?g"
    by code_simp
  have 2: "extract_input_symbols (expression ?g) = [''C'', ''B'', ''A'']"
    by code_simp
  have 3: "map_sum id (\<lambda>g. truth_table g ! 1) (generate_truth_table ?g) = Inr ([0, 0, 1], 0)"
    by code_simp
  from 3 obtain g' where "generate_truth_table ?g = Inr g'" and "truth_table g' ! 1 = ([0, 0, 1], 0)"
    by (cases "generate_truth_table ?g") auto
  moreover have "expression ?g = ''A+B*(C)''" "operator ?g = AND"
    "map_option expression (inp_1 ?g) = Some ''A+B''"
    "map_option expression (inp_2 ?g) = Some ''(C)''"
    by (simp_all add: fresh_def)
  ultimately show ?thesis
    using 1 2 by blast
qed

text \<open>
  C10. Whenever the normalized text is empty, reading its first character fails:
  the constructor raises \<open>IndexError\<close>, not one of its own validation failures.
\<close>

theorem empty_expression_index_error:
  "normalize_bool_fct_str (py_strip raw) = [] \<Longrightarrow> Gate raw = Inl IndexError"
  by (subst Gate.simps) (simp add: Let_def)

theorem empty_expression_index_error_witness:
  "Gate '''' = Inl IndexError \<and> Gate ''   '' = Inl IndexError \<and> Gate ''*+'' = Inl IndexError
     \<and> Gate ''**++'' = Inl IndexError"
proof -
  have "normalize_bool_fct_str (py_strip '''') = []"
    "normalize_bool_fct_str (py_strip ''   '') = []"
    "normalize_bool_fct_str (py_strip ''*+'') = []"
    "normalize_bool_fct_str (py_strip ''**++'') = []"
    by code_simp+
  then show ?thesis
    using empty_expression_index_error by blast
qed

section \<open>The minterm builder and its specification\<close>

text \<open>
  The builder as the specification words it: one term for each row whose output bit is 1,
  a symbol bare where the row's bit is 1 and followed by a complement mark where it is 0;
  the terms in row order, reversed, joined by \<open>" + "\<close>. \<open>bit_table table n\<close> says that
  the table holds bits only and no row has more than \<open>n\<close> input bits.
\<close>

definition spec_term :: "string list \<Rightarrow> int list \<Rightarrow> string" where
  "spec_term symbols bits =
     concat (map (\<lambda>i. if bits ! i = 1 then symbols ! i else symbols ! i @ [quote]) [0 ..< length bits])"

definition spec_minterms :: "(int list \<times> int) list \<Rightarrow> string list \<Rightarrow> string" where
  "spec_minterms table symbols =
     py_join '' + '' (rev (map (\<lambda>row. spec_term symbols (fst row)) (filter (\<lambda>row. snd row = 1) table)))"

definition bit_table :: "(int list \<times> int) list \<Rightarrow> nat \<Rightarrow> bool" where
  "bit_table table n \<longleftrightarrow>
     list_all (\<lambda>row. snd row \<in> {0, 1} \<and> set (fst row) \<subseteq> {0, 1} \<and> length (fst row) \<le> n) table"

lemma sequence_map_Inr: "(\<And>x. x \<in> set xs \<Longrightarrow> f x = Inr (g x)) \<Longrightarrow> sequence (map f xs) = Inr (map g xs)"
  by (induction xs) simp_all

lemma py_index_nat: "i < length xs \<Longrightarrow> py_index xs (int i) = Inr (xs ! i)"
  by (simp add: py_index_def)

lemma row_term_spec:
  assumes "set bits \<subseteq> {0, 1}" "length bits \<le> length symbols"
  shows "row_term symbols bits = Inr (spec_term symbols bits)"
proof -
  have "literal symbols bits i = Inr (if bits ! i = 1 then symbols ! i else symbols ! i @ [quote])"
    if "i \<in> set [0 ..< length bits]" for i
  proof -
    have i: "i < length bits" using that by simp
    then have "bits ! i \<in> {0, 1}" using assms(1) nth_mem by blast
    moreover have "py_index symbols (int i) = Inr (symbols ! i)"
      using i assms(2) by (simp add: py_index_nat)
    ultimately show ?thesis by (auto simp: literal_def)
  qed
  then have "sequence (map (literal symbols bits) [0 ..< length bits])
      = Inr (map (\<lambda>i. if bits ! i = 1 then symbols ! i else symbols ! i @ [quote]) [0 ..< length bits])"
    by (rule sequence_map_Inr)
  then show ?thesis by (simp add: row_term_def spec_term_def)
qed

lemma min_terms_loop_spec:
  "bit_table table (length symbols) \<Longrightarrow>
   min_terms_loop table symbols acc
     = Inr (acc @ map (\<lambda>row. spec_term symbols (fst row)) (filter (\<lambda>row. snd row = 1) table))"
proof (induction table arbitrary: acc)
  case Nil
  then show ?case by simp
next
  case (Cons line rest)
  then have r: "bit_table rest (length symbols)" and l: "snd line \<in> {0, 1}"
    "set (fst line) \<subseteq> {0, 1}" "length (fst line) \<le> length symbols"
    by (simp_all add: bit_table_def)
  show ?case
  proof (cases "snd line = 1")
    case True
    then show ?thesis
      using Cons.IH [OF r] row_term_spec [OF l(2,3)] by simp
  next
    case False
    then have "snd line = 0" using l(1) by simp
    then show ?thesis
      using Cons.IH [OF r] by simp
  qed
qed

lemma min_terms_loop_no_true:
  "list_all (\<lambda>row. snd row = 0) table \<Longrightarrow> min_terms_loop table symbols acc = Inr acc"
  by (induction table arbitrary: acc) simp_all

text \<open>
  C3. On a table of bits whose rows are no longer than the list of symbols, the builder
  returns the specified string. When no row has output 1 the body is empty, and
  \<open>sum_of_min_terms\<close> of a circuit with such a table returns \<open>F = \<close> with nothing
  after it.
\<close>

theorem build_minterms_spec:
  "(bit_table table (length symbols) \<longrightarrow>
      build_minterms table (Some symbols) = Inr (spec_minterms table symbols))
   \<and> (list_all (\<lambda>row. snd row = 0) table \<longrightarrow> build_minterms table (Some symbols) = Inr [])
   \<and> (truth_table circuit = [] \<and> generate_truth_table circuit = Inr circuit'
        \<and> list_all (\<lambda>row. snd row = 0) (truth_table circuit')
      \<longrightarrow> sum_of_min_terms circuit = Inr (''F = '', circuit'))"
  by (simp add: build_minterms_def spec_minterms_def min_terms_loop_spec min_terms_loop_no_true
      sum_of_min_terms_def)

theorem build_minterms_spec_witness:
  "build_minterms [([0, 0], 0), ([0, 1], 1), ([1, 0], 1), ([1, 1], 1)] (Some [''B'', ''A''])
     = Inr (''BA + BA'' @ [quote] @ '' + B'' @ [quote] @ ''A'')
   \<and> build_minterms [([0], 0), ([1], 0)] (Some [''A'']) = Inr []
   \<and> (\<exists>c c'. Gate (''AA'' @ [quote]) = Inr c \<and> generate_truth_table c = Inr c'
        \<and> sum_of_min_terms c = Inr (''F = '', c'))"
proof -
  let ?t = "[([0, 0], 0), ([0, 1], 1), ([1, 0], 1), ([1, 1], 1)] :: (int list \<times> int) list"
  let ?z = "[([0], 0), ([1], 0)] :: (int list \<times> int) list"
  let ?c = "fresh (''A*A'' @ [quote]) AND (Some (fresh ''A'' INPUT None None))
              (Some (fresh (''A'' @ [quote]) NOT (Some (fresh ''A'' INPUT None None)) None))"
  have "bit_table ?t (length [''B'', ''A''])"
    by (simp add: bit_table_def)
  moreover have "spec_minterms ?t [''B'', ''A''] = ''BA + BA'' @ [quote] @ '' + B'' @ [quote] @ ''A''"
    by code_simp
  ultimately have 1: "build_minterms ?t (Some [''B'', ''A''])
      = Inr (''BA + BA'' @ [quote] @ '' + B'' @ [quote] @ ''A'')"
    using build_minterms_spec [of ?t "[''B'', ''A'']"] by simp
  have 2: "build_minterms ?z (Some [''A'']) = Inr []"
    using build_minterms_spec [of ?z "[''A'']"] by simp
  have g: "Gate (''AA'' @ [quote]) = Inr ?c"
    by code_simp
  have "case generate_truth_table ?c of Inl e \<Rightarrow> False
        | Inr c' \<Rightarrow> list_all (\<lambda>row. snd row = 0) (truth_table c')"
    by code_simp
  then obtain c' where c': "generate_truth_table ?c = Inr c'"
    "list_all (\<lambda>row. snd row = 0) (truth_table c')"
    by (cases "generate_truth_table ?c") auto
  have "truth_table ?c = []"
    by (simp add: fresh_def)
  then have "sum_of_min_terms ?c = Inr (''F = '', c')"
    using build_minterms_spec [of "[]" "[]" ?c c'] c' by simp
  with g c' 1 2 show ?thesis
    by blast
qed

section \<open>Evaluation of a tree\<close>

text \<open>
  A tree is \<open>wellformed\<close> when every node has the inputs of its operator: two for AND and
  OR, one for NOT and UNITY, none for INPUT. \<open>required\<close> collects the symbols of its
  input nodes. A tree is \<open>evaluated\<close> under an assignment when the output of every node
  is what its operator makes of the outputs of its inputs, and every input node holds
  the value the assignment gives its symbol. \<open>erase\<close> forgets the outputs.
\<close>

fun wellformed :: "gate \<Rightarrow> bool" where
  "wellformed (Node expr AND (Some a) (Some b) out tt) = (wellformed a \<and> wellformed b)"
| "wellformed (Node expr OR (Some a) (Some b) out tt) = (wellformed a \<and> wellformed b)"
| "wellformed (Node expr NOT (Some a) None out tt) = wellformed a"
| "wellformed (Node expr UNITY (Some a) None out tt) = wellformed a"
| "wellformed (Node expr INPUT None None out tt) = True"
| "wellformed _ = False"

fun required :: "gate \<Rightarrow> string set" where
  "required (Node expr opr i1 i2 out tt) =
     (if opr = INPUT then {expr} else {})
       \<union> (case i1 of None \<Rightarrow> {} | Some a \<Rightarrow> required a)
       \<union> (case i2 of None \<Rightarrow> {} | Some b \<Rightarrow> required b)"

fun evaluated :: "gate \<Rightarrow> (string \<rightharpoonup> pyval) \<Rightarrow> bool" where
  "evaluated (Node expr AND (Some a) (Some b) out tt) inputs =
     (evaluated a inputs \<and> evaluated b inputs
        \<and> truthy out = (truthy (output_val a) \<and> truthy (output_val b)))"
| "evaluated (Node expr OR (Some a) (Some b) out tt) inputs =
     (evaluated a inputs \<and> evaluated b inputs
        \<and> truthy out = (truthy (output_val a) \<or> truthy (output_val b)))"
| "evaluated (Node expr NOT (Some a) None out tt) inputs =
     (evaluated a inputs \<and> truthy out = (\<not> truthy (output_val a)))"
| "evaluated (Node expr UNITY (Some a) None out tt) inputs =
     (evaluated a inputs \<and> out = output_val a)"
| "evaluated (Node expr INPUT None None out tt) inputs = (inputs expr = Some out)"
| "evaluated _ inputs = False"

fun erase :: "gate \<Rightarrow> gate" where
  "erase (Node expr opr i1 i2 out tt) =
     Node expr opr (map_option erase i1) (map_option erase i2) (PyInt 0) tt"

lemma update_wellformed:
  "wellformed g \<Longrightarrow>
     (required g \<subseteq> dom inputs \<longrightarrow>
        (\<exists>g'. update g inputs = Inr g' \<and> erase g' = erase g \<and> evaluated g' inputs))
     \<and> (\<not> required g \<subseteq> dom inputs \<longrightarrow> update g inputs = Inl MissingVariable)"
proof (induction g rule: wellformed.induct)
  case (1 expr a b out tt)
  then show ?case
    by (auto simp: new_output_def child_output_def split: sum.splits)
next
  case (2 expr a b out tt)
  then show ?case
    by (auto simp: new_output_def child_output_def split: sum.splits)
next
  case (3 expr a out tt)
  then show ?case
    by (auto simp: new_output_def child_output_def py_not_def split: sum.splits)
next
  case (4 expr a out tt)
  then show ?case
    by (auto simp: new_output_def child_output_def split: sum.splits)
next
  case (5 expr out tt)
  then show ?case
    by (auto simp: new_output_def split: option.splits)
qed simp_all

text \<open>
  C8. \<open>update\<close> on a wellformed tree: when the assignment has every symbol the tree
  requires, it returns the same tree with every output set, inputs before the node that
  reads them: AND and OR of the two inputs' outputs, the complement for NOT, the input's
  output unchanged for UNITY (the pass-through), the looked-up value for INPUT.
  When a required symbol is missing, it fails with \<open>MissingVariable\<close>.
\<close>

theorem update_post_order:
  "wellformed g \<Longrightarrow>
     (required g \<subseteq> dom inputs \<longrightarrow>
        (\<exists>g'. update g inputs = Inr g' \<and> erase g' = erase g \<and> evaluated g' inputs))
     \<and> (\<not> required g \<subseteq> dom inputs \<longrightarrow> update g inputs = Inl MissingVariable)"
  by (rule update_wellformed)

theorem update_post_order_witness:
  "(\<exists>g'. update (fresh ''A+B'' OR (Some (fresh ''A'' INPUT None None)) (Some (fresh ''B'' INPUT None None)))
            [''A'' \<mapsto> PyInt 1, ''B'' \<mapsto> PyInt 0] = Inr g'
        \<and> evaluated g' [''A'' \<mapsto> PyInt 1, ''B'' \<mapsto> PyInt 0]
        \<and> output_val g' = PyInt 1)
   \<and> update (fresh ''A+B'' OR (Some (fresh ''A'' INPUT None None)) (Some (fresh ''B'' INPUT None None)))
        [''A'' \<mapsto> PyInt 1] = Inl MissingVariable"
proof -
  let ?g = "fresh ''A+B'' OR (Some (fresh ''A'' INPUT None None)) (Some (fresh ''B'' INPUT None None))"
  have w: "wellformed ?g" and r: "required ?g = {''A'', ''B''}"
    by (auto simp: fresh_def)
  have "\<exists>g'. update ?g [''A'' \<mapsto> PyInt 1, ''B'' \<mapsto> PyInt 0] = Inr g'
          \<and> evaluated g' [''A'' \<mapsto> PyInt 1, ''B'' \<mapsto> PyInt 0]"
    using update_post_order [OF w, of "[''A'' \<mapsto> PyInt 1, ''B'' \<mapsto> PyInt 0]"] r by auto
  moreover have "map_sum id output_val (update ?g [''A'' \<mapsto> PyInt 1, ''B'' \<mapsto> PyInt 0]) = Inr (PyInt 1)"
    by (simp add: fresh_def new_output_def child_output_def)
  moreover have "update ?g [''A'' \<mapsto> PyInt 1] = Inl MissingVariable"
    using update_post_order [OF w, of "[''A'' \<mapsto> PyInt 1]"] r by auto
  ultimately show ?thesis
    by auto
qed

section \<open>The rows of the truth table\<close>

text \<open>
  \<open>binary n i\<close> is the number \<open>i\<close> written with \<open>n\<close> binary digits, the most
  significant first: the \<open>i\<close>-th tuple of standard binary counting.
\<close>

definition binary :: "nat \<Rightarrow> nat \<Rightarrow> int list" where
  "binary n i = map (\<lambda>j. int ((i div 2 ^ (n - 1 - j)) mod 2)) [0 ..< n]"

lemma binary_Suc: "binary (Suc n) i = binary n (i div 2) @ [int (i mod 2)]"
proof -
  have "(i div 2) div 2 ^ (n - 1 - j) = i div 2 ^ (n - j)" if "j < n" for j
  proof -
    have "2 ^ (n - j) = (2::nat) * 2 ^ (n - 1 - j)"
      using that by (metis Suc_diff_Suc diff_Suc_eq_diff_pred power_Suc diff_commute)
    then show ?thesis
      by (simp add: div_mult2_eq)
  qed
  then show ?thesis
    by (simp add: binary_def)
qed

lemma length_product_step: "length (product_step [a, b] r) = 2 * length r"
  by (induction r) (simp_all add: product_step_def)

lemma nth_product_step:
  "i < 2 * length r \<Longrightarrow>
     product_step [a, b] r ! i = r ! (i div 2) @ [if i mod 2 = 0 then a else b]"
proof (induction r arbitrary: i)
  case Nil
  then show ?case by simp
next
  case (Cons x r)
  have step: "product_step [a, b] (x # r) = (x @ [a]) # (x @ [b]) # product_step [a, b] r"
    by (simp add: product_step_def)
  show ?case
  proof (cases "i < 2")
    case True
    then have "i = 0 \<or> i = 1" by arith
    then show ?thesis by (auto simp: step)
  next
    case False
    then obtain k where k: "i = Suc (Suc k)"
      by (metis One_nat_def Suc_1 less_Suc_eq not_less_eq old.nat.exhaust zero_less_Suc)
    then have "k < 2 * length r" using Cons.prems by simp
    then have "product_step [a, b] r ! k = r ! (k div 2) @ [if k mod 2 = 0 then a else b]"
      by (rule Cons.IH)
    moreover have "Suc (Suc k) div 2 = Suc (k div 2)" "Suc (Suc k) mod 2 = k mod 2"
      by simp_all
    ultimately show ?thesis
      by (simp add: step k)
  qed
qed

lemma length_itertools_product: "length (itertools_product [a, b] n) = 2 ^ n"
  by (induction n) (simp_all add: itertools_product_def length_product_step)

lemma nth_itertools_product:
  "i < 2 ^ n \<Longrightarrow> itertools_product [0, 1] n ! i = binary n i"
proof (induction n arbitrary: i)
  case 0
  then show ?case by (simp add: itertools_product_def binary_def)
next
  case (Suc n)
  have l: "length (itertools_product [0, 1 :: int] n) = 2 ^ n"
    by (rule length_itertools_product)
  have "i div 2 < 2 ^ n"
    using Suc.prems by simp
  then have "itertools_product [0, 1] n ! (i div 2) = binary n (i div 2)"
    by (rule Suc.IH)
  moreover have "itertools_product [0, 1 :: int] (Suc n) ! i
      = itertools_product [0, 1] n ! (i div 2) @ [if i mod 2 = 0 then 0 else 1]"
    using Suc.prems l by (simp add: itertools_product_def nth_product_step)
  moreover have "(if i mod 2 = 0 then 0 else 1) = int (i mod 2)"
    by auto
  ultimately show ?case
    by (simp add: binary_Suc)
qed

lemma table_loop_rows:
  "table_loop circuit syms rows table = Inr (circuit', table') \<Longrightarrow>
     map fst table' = map fst table @ rows"
proof (induction rows arbitrary: circuit table)
  case Nil
  then show ?case by simp
next
  case (Cons inp rest)
  then show ?case
    by (auto split: sum.splits)
qed

lemma extract_input_symbols_set:
  "extract_input_symbols fct_str
     = map (\<lambda>c. [c]) (rev (sorted_list_of_set {c \<in> set fct_str. isalpha c}))"
proof -
  have "set (filter isalpha fct_str) = {c \<in> set fct_str. isalpha c}"
    by auto
  then show ?thesis
    by (metis extract_input_symbols_def sorted_list_of_set_sort_remdups)
qed

lemma length_extract_input_symbols:
  "length (extract_input_symbols fct_str) = card {c \<in> set fct_str. isalpha c}"
  by (simp add: extract_input_symbols_set)

section \<open>The checks of the table loader\<close>

lemma sequence_Inr: "sequence (map Inr xs) = Inr xs"
  by (induction xs) simp_all

lemma check_loop_ok:
  "k + length rows \<le> length table \<Longrightarrow>
   (\<And>j. j < length rows \<Longrightarrow> fst (table ! (k + j)) = rows ! j) \<Longrightarrow>
   check_loop table k rows = Inr ()"
proof (induction rows arbitrary: k)
  case Nil
  then show ?case by simp
next
  case (Cons inp rest)
  have "fst (table ! k) = inp"
    using Cons.prems(2) [of 0] by simp
  moreover have "check_loop table (Suc k) rest = Inr ()"
  proof (rule Cons.IH)
    show "Suc k + length rest \<le> length table"
      using Cons.prems(1) by simp
    show "fst (table ! (Suc k + j)) = rest ! j" if "j < length rest" for j
      using Cons.prems(2) [of "Suc j"] that by simp
  qed
  moreover have "k < length table"
    using Cons.prems(1) by simp
  ultimately show ?case
    by (simp add: py_index_def)
qed

lemma check_loop_first_mismatch:
  "k + length rows \<le> length table \<Longrightarrow> m < length rows \<Longrightarrow>
   fst (table ! (k + m)) \<noteq> rows ! m \<Longrightarrow>
   (\<And>j. j < m \<Longrightarrow> fst (table ! (k + j)) = rows ! j) \<Longrightarrow>
   check_loop table k rows = Inl (InconsistentRow (k + m + 1))"
proof (induction rows arbitrary: k m)
  case Nil
  then show ?case by simp
next
  case (Cons inp rest)
  have k: "k < length table"
    using Cons.prems(1) by simp
  show ?case
  proof (cases m)
    case 0
    then show ?thesis
      using Cons.prems(3) k by (simp add: py_index_def)
  next
    case (Suc m')
    have "fst (table ! k) = inp"
      using Cons.prems(4) [of 0] Suc by simp
    moreover have "check_loop table (Suc k) rest = Inl (InconsistentRow (Suc k + m' + 1))"
    proof (rule Cons.IH)
      show "Suc k + length rest \<le> length table"
        using Cons.prems(1) by simp
      show "m' < length rest"
        using Cons.prems(2) Suc by simp
      show "fst (table ! (Suc k + m')) \<noteq> rest ! m'"
        using Cons.prems(3) Suc by simp
      show "fst (table ! (Suc k + j)) = rest ! j" if "j < m'" for j
        using Cons.prems(4) [of "Suc j"] that Suc by simp
    qed
    ultimately show ?thesis
      using k Suc by (simp add: py_index_def)
  qed
qed

lemma read_table_count:
  assumes "lines \<noteq> []" "parse_line (hd lines) = Inr line_1"
  shows "read_table_from_file lines =
     (if length lines < 2 ^ length (fst line_1) then Inl IncompleteTable
      else if length lines > 2 ^ length (fst line_1) then Inl OverdefinedTable
      else case sequence (map parse_line (drop 1 lines)) of
             Inl e \<Rightarrow> Inl e
           | Inr rest \<Rightarrow>
               (case check_table (line_1 # rest) (length (fst line_1)) of
                  Inl e \<Rightarrow> Inl e
                | Inr u \<Rightarrow> Inr (line_1 # rest)))"
proof -
  have "py_index lines 0 = Inr (hd lines)"
    using assms(1) by (cases lines) (simp_all add: py_index_def)
  then show ?thesis
    using assms(2) by (simp add: read_table_from_file_def Let_def split: sum.splits)
qed

text \<open>
  C7. Let the first line of the file parse, with \<open>N\<close> input bits. With fewer than
  \<open>2 ^ N\<close> lines the loader fails with \<open>IncompleteTable\<close>, with more with
  \<open>OverdefinedTable\<close>. With exactly \<open>2 ^ N\<close> lines that all parse, it returns the
  parsed table when every row has the inputs of its index in binary counting order,
  and otherwise fails with \<open>InconsistentRow\<close> at the (1-based) number of the first row
  that has not.
\<close>

theorem read_table_checks:
  assumes "lines \<noteq> []" and "parse_line (hd lines) = Inr (inp, out)"
  shows "(length lines < 2 ^ length inp \<longrightarrow> read_table_from_file lines = Inl IncompleteTable)
     \<and> (length lines > 2 ^ length inp \<longrightarrow> read_table_from_file lines = Inl OverdefinedTable)
     \<and> (length lines = 2 ^ length inp \<and> map parse_line lines = map Inr table \<longrightarrow>
          ((\<forall>j < length table. fst (table ! j) = binary (length inp) j)
             \<longrightarrow> read_table_from_file lines = Inr table)
          \<and> (i < length table \<and> fst (table ! i) \<noteq> binary (length inp) i
              \<and> (\<forall>j < i. fst (table ! j) = binary (length inp) j)
             \<longrightarrow> read_table_from_file lines = Inl (InconsistentRow (i + 1))))"
proof (intro conjI impI)
  show "read_table_from_file lines = Inl IncompleteTable" if "length lines < 2 ^ length inp"
    using read_table_count [OF assms] that by simp
  show "read_table_from_file lines = Inl OverdefinedTable" if "length lines > 2 ^ length inp"
    using read_table_count [OF assms] that by simp
next
  let ?n = "length inp"
  let ?rows = "itertools_product [0, 1 :: int] ?n"
  assume a: "length lines = 2 ^ ?n \<and> map parse_line lines = map Inr table"
  then have len: "length table = 2 ^ ?n"
    by (metis length_map)
  have rows: "length ?rows = 2 ^ ?n"
    by (rule length_itertools_product)
  have "table \<noteq> []"
    using len by auto
  moreover have "hd (map parse_line lines) = parse_line (hd lines)"
    using assms(1) by (simp add: hd_map)
  ultimately have hd: "hd table = (inp, out)"
    using a assms(2) by (cases table) auto
  have "map parse_line (drop 1 lines) = map Inr (drop 1 table)"
    using a by (metis drop_map)
  then have rest: "sequence (map parse_line (drop 1 lines)) = Inr (drop 1 table)"
    by (simp add: sequence_Inr)
  have tab: "(inp, out) # drop 1 table = table"
    using hd \<open>table \<noteq> []\<close> by (cases table) auto
  have read: "read_table_from_file lines =
      (case check_table table ?n of Inl e \<Rightarrow> Inl e | Inr u \<Rightarrow> Inr table)"
    using read_table_count [OF assms] a rest tab by (simp split: sum.splits)
  {
    assume "\<forall>j < length table. fst (table ! j) = binary ?n j"
    then have "check_loop table 0 ?rows = Inr ()"
      using len rows by (intro check_loop_ok) (simp_all add: nth_itertools_product)
    then show "read_table_from_file lines = Inr table"
      by (simp add: read check_table_def)
  }
  {
    assume b: "i < length table \<and> fst (table ! i) \<noteq> binary ?n i
        \<and> (\<forall>j < i. fst (table ! j) = binary ?n j)"
    have "check_loop table 0 ?rows = Inl (InconsistentRow (0 + i + 1))"
    proof (rule check_loop_first_mismatch)
      show "0 + length ?rows \<le> length table"
        using len rows by simp
      show "i < length ?rows"
        using b len rows by simp
      show "fst (table ! (0 + i)) \<noteq> ?rows ! i"
        using b len by (simp add: nth_itertools_product)
      show "fst (table ! (0 + j)) = ?rows ! j" if "j < i" for j
        using b len that by (simp add: nth_itertools_product)
    qed
    then show "read_table_from_file lines = Inl (InconsistentRow (i + 1))"
      by (simp add: read check_table_def)
  }
qed

lemma rows_by_map:
  assumes "map fst table = map (binary n) [0 ..< length table]"
  shows "\<forall>j < length table. fst (table ! j) = binary n j"
proof (intro allI impI)
  fix j
  assume j: "j < length table"
  then have "fst (table ! j) = map fst table ! j"
    by simp
  also have "\<dots> = map (binary n) [0 ..< length table] ! j"
    using assms by simp
  also have "\<dots> = binary n j"
    using j by simp
  finally show "fst (table ! j) = binary n j" .
qed

theorem read_table_checks_witness:
  "read_table_from_file [''0 0 1'', ''0 1 0'', ''1 0 0''] = Inl IncompleteTable
   \<and> read_table_from_file [''0 0 1'', ''0 1 0'', ''1 0 0'', ''1 1 1'', ''1 1 1''] = Inl OverdefinedTable
   \<and> read_table_from_file [''0 0 1'', ''0 0 0'', ''1 0 0'', ''1 1 1''] = Inl (InconsistentRow 2)
   \<and> read_table_from_file [''0 0 1'' @ [CHR 0x0A], ''0 1 0'' @ [CHR 0x0A], ''1 0 0'' @ [CHR 0x0A], ''1 1 1'' @ [CHR 0x0A]]
        = Inr [([0, 0], 1), ([0, 1], 0), ([1, 0], 0), ([1, 1], 1)]"
proof -
  let ?short = "[''0 0 1'', ''0 1 0'', ''1 0 0'']"
  let ?long = "[''0 0 1'', ''0 1 0'', ''1 0 0'', ''1 1 1'', ''1 1 1'']"
  let ?bad = "[''0 0 1'', ''0 0 0'', ''1 0 0'', ''1 1 1'']"
  let ?good = "[''0 0 1'' @ [CHR 0x0A], ''0 1 0'' @ [CHR 0x0A], ''1 0 0'' @ [CHR 0x0A], ''1 1 1'' @ [CHR 0x0A]]"
  let ?tbad = "[([0, 0], 1), ([0, 0], 0), ([1, 0], 0), ([1, 1], 1)] :: (int list \<times> int) list"
  let ?tgood = "[([0, 0], 1), ([0, 1], 0), ([1, 0], 0), ([1, 1], 1)] :: (int list \<times> int) list"
  have p: "parse_line ''0 0 1'' = Inr ([0, 0], 1)"
    by code_simp
  have 1: "read_table_from_file ?short = Inl IncompleteTable"
    using read_table_checks [of ?short "[0, 0]" 1] p by simp
  have 2: "read_table_from_file ?long = Inl OverdefinedTable"
    using read_table_checks [of ?long "[0, 0]" 1] p by simp
  have pb: "map parse_line ?bad = map Inr ?tbad"
    by code_simp
  have h1: "?bad \<noteq> []" and h3: "length ?bad = 2 ^ length [0, 0 :: int]"
    and h5: "(1::nat) < length ?tbad"
    by simp_all
  have h2: "parse_line (hd ?bad) = Inr ([0, 0], 1)"
    by code_simp
  have h6: "fst (?tbad ! 1) \<noteq> binary (length [0, 0 :: int]) 1"
    by code_simp
  have h0: "fst (?tbad ! 0) = binary (length [0, 0 :: int]) 0"
    by code_simp
  have h7: "\<forall>j < 1. fst (?tbad ! j) = binary (length [0, 0 :: int]) j"
  proof (intro allI impI)
    fix j :: nat
    assume "j < 1"
    then have "j = 0"
      by simp
    with h0 show "fst (?tbad ! j) = binary (length [0, 0 :: int]) j"
      by blast
  qed
  have "read_table_from_file ?bad = Inl (InconsistentRow (1 + 1))"
    using read_table_checks [OF h1 h2, of ?tbad 1] h3 pb h5 h6 h7 by blast
  then have 3: "read_table_from_file ?bad = Inl (InconsistentRow 2)"
    by simp
  have pg: "map parse_line ?good = map Inr ?tgood"
    and g2: "parse_line (hd ?good) = Inr ([0, 0], 1)"
    by code_simp+
  have g1: "?good \<noteq> []" and g3: "length ?good = 2 ^ length [0, 0 :: int]"
    by simp_all
  have "map fst ?tgood = map (binary (length [0, 0 :: int])) [0 ..< length ?tgood]"
    by code_simp
  then have g4: "\<forall>j < length ?tgood. fst (?tgood ! j) = binary (length [0, 0 :: int]) j"
    by (rule rows_by_map)
  have 4: "read_table_from_file ?good = Inr ?tgood"
    using read_table_checks [OF g1 g2, of ?tgood] g3 pg g4 by blast
  from 1 2 3 4 show ?thesis
    by blast
qed

section \<open>The round trip through the minterm string\<close>

subsection \<open>Outputs are bits, and do not depend on earlier outputs\<close>






lemma erase_update: "update g inputs = Inr g' \<Longrightarrow> erase g' = erase g"
proof (induction g inputs arbitrary: g' rule: update.induct)
  case (1 expr opr i1 i2 out tt inputs)
  from "1.prems"(1) obtain i1' i2' v where
    u1: "(case i1 of None \<Rightarrow> Inr None
          | Some g \<Rightarrow> (case update g inputs of Inl e \<Rightarrow> Inl e | Inr g' \<Rightarrow> Inr (Some g'))) = Inr i1'"
    and u2: "(case i2 of None \<Rightarrow> Inr None
          | Some g \<Rightarrow> (case update g inputs of Inl e \<Rightarrow> Inl e | Inr g' \<Rightarrow> Inr (Some g'))) = Inr i2'"
    and g': "g' = Node expr opr i1' i2' v tt"
    by (auto split: sum.splits)
  have "map_option erase i1' = map_option erase i1"
  proof (cases i1)
    case None
    then show ?thesis using u1 by auto
  next
    case (Some a)
    then obtain a' where a': "update a inputs = Inr a'" "i1' = Some a'"
      using u1 by (auto split: sum.splits)
    then have "erase a' = erase a"
      using "1.IH"(1) Some by blast
    then show ?thesis
      using Some a' by simp
  qed
  moreover have "map_option erase i2' = map_option erase i2"
  proof (cases i2)
    case None
    then show ?thesis using u2 by auto
  next
    case (Some b)
    then obtain b' where b': "update b inputs = Inr b'" "i2' = Some b'"
      using u2 by (auto split: sum.splits)
    then have "erase b' = erase b"
      using "1.IH"(2) [OF u1] Some by blast
    then show ?thesis
      using Some b' by simp
  qed
  ultimately show ?case
    by (simp add: g')
qed

lemma update_erase: "erase g1 = erase g2 \<Longrightarrow> update g1 inputs = update g2 inputs"
proof (induction g1 inputs arbitrary: g2 rule: update.induct)
  case (1 expr opr i1 i2 out tt inputs)
  obtain expr2 opr2 j1 j2 out2 tt2 where g2: "g2 = Node expr2 opr2 j1 j2 out2 tt2"
    by (cases g2)
  from "1.prems" have eq: "expr2 = expr" "opr2 = opr" "tt2 = tt"
    "map_option erase i1 = map_option erase j1" "map_option erase i2 = map_option erase j2"
    by (simp_all add: g2)
  have c1: "(case i1 of None \<Rightarrow> Inr None
          | Some g \<Rightarrow> (case update g inputs of Inl e \<Rightarrow> Inl e | Inr g' \<Rightarrow> Inr (Some g')))
     = (case j1 of None \<Rightarrow> Inr None
          | Some g \<Rightarrow> (case update g inputs of Inl e \<Rightarrow> Inl e | Inr g' \<Rightarrow> Inr (Some g')))"
  proof (cases i1)
    case None
    then show ?thesis using eq(4) by simp
  next
    case (Some a)
    then obtain b where b: "j1 = Some b" "erase a = erase b"
      using eq(4) by (cases j1) auto
    then have "update a inputs = update b inputs"
      using "1.IH"(1) Some by blast
    then show ?thesis
      using Some b by simp
  qed
  have c2: "(case i2 of None \<Rightarrow> Inr None
          | Some g \<Rightarrow> (case update g inputs of Inl e \<Rightarrow> Inl e | Inr g' \<Rightarrow> Inr (Some g')))
     = (case j2 of None \<Rightarrow> Inr None
          | Some g \<Rightarrow> (case update g inputs of Inl e \<Rightarrow> Inl e | Inr g' \<Rightarrow> Inr (Some g')))"
    if "(case i1 of None \<Rightarrow> Inr None
          | Some g \<Rightarrow> (case update g inputs of Inl e \<Rightarrow> Inl e | Inr g' \<Rightarrow> Inr (Some g'))) = Inr i1'"
    for i1'
  proof (cases i2)
    case None
    then show ?thesis using eq(5) by simp
  next
    case (Some a)
    then obtain b where b: "j2 = Some b" "erase a = erase b"
      using eq(5) by (cases j2) auto
    then have "update a inputs = update b inputs"
      using "1.IH"(2) [OF that] Some by blast
    then show ?thesis
      using Some b by simp
  qed
  show ?case
    unfolding g2 eq update.simps c1 [symmetric]
    using c2 by (auto split: sum.splits)
qed

definition out_bit :: "gate \<Rightarrow> (string \<rightharpoonup> pyval) \<Rightarrow> int" where
  "out_bit g inputs =
     (case update g inputs of Inl e \<Rightarrow> 0 | Inr g' \<Rightarrow> normalize_bool (output_val g'))"

definition assignment :: "string list \<Rightarrow> int list \<Rightarrow> (string \<rightharpoonup> pyval)" where
  "assignment syms inp = dict_zip syms (map PyInt inp)"


lemma table_loop_total:
  "(\<And>inp. inp \<in> set rows \<Longrightarrow> \<exists>g'. update c (assignment syms inp) = Inr g') \<Longrightarrow>
     \<exists>c'. table_loop c syms rows acc
        = Inr (c', acc @ map (\<lambda>inp. (inp, out_bit c (assignment syms inp))) rows)"
proof (induction rows arbitrary: c acc)
  case Nil
  then show ?case by simp
next
  case (Cons inp rest)
  from Cons.prems obtain c1 where u: "update c (assignment syms inp) = Inr c1"
    by auto
  have e: "erase c1 = erase c"
    using u by (rule erase_update)
  then have same: "update c1 i = update c i" for i
    by (rule update_erase)
  have "\<exists>g'. update c1 (assignment syms i) = Inr g'" if "i \<in> set rest" for i
    using Cons.prems [of i] that by (simp add: same)
  from Cons.IH [OF this, of "acc @ [(inp, normalize_bool (output_val c1))]"]
  obtain c' where "table_loop c1 syms rest (acc @ [(inp, normalize_bool (output_val c1))])
      = Inr (c', (acc @ [(inp, normalize_bool (output_val c1))])
           @ map (\<lambda>inp. (inp, out_bit c1 (assignment syms inp))) rest)"
    by blast
  then show ?case
    using u by (simp add: assignment_def [symmetric] out_bit_def same)
qed


subsection \<open>The text of a sum of minterms\<close>



























subsection \<open>The parser, case by case\<close>


lemma Gate_or:
  assumes "normalize_bool_fct_str (py_strip raw) = x" "x \<noteq> []"
    and "hd x \<notin> {quote, CHR ''*'', CHR ''+'', CHR ''!''}"
    and "CHR ''('' \<notin> set x" "CHR ''+'' \<in> set x"
  shows "Gate raw =
     (case Gate (takeWhile (\<lambda>c. c \<noteq> CHR ''+'') x) of
        Inl e \<Rightarrow> Inl e
      | Inr g1 \<Rightarrow>
          (case Gate (drop 1 (dropWhile (\<lambda>c. c \<noteq> CHR ''+'') x)) of
             Inl e \<Rightarrow> Inl e
           | Inr g2 \<Rightarrow> Inr (fresh x OR (Some g1) (Some g2))))"
proof -
  have "count_char CHR ''('' x = 0" "count_char CHR ''+'' x \<noteq> 0"
    using assms(4,5) count_char_pos by auto
  then show ?thesis
    using assms(1,2,3) by (subst Gate.simps) (simp add: Let_def)
qed

lemma Gate_and:
  assumes "normalize_bool_fct_str (py_strip raw) = x" "x \<noteq> []"
    and "hd x \<notin> {quote, CHR ''*'', CHR ''+'', CHR ''!''}"
    and "CHR ''('' \<notin> set x" "CHR ''+'' \<notin> set x" "CHR ''*'' \<in> set x"
  shows "Gate raw =
     (case Gate (takeWhile (\<lambda>c. c \<noteq> CHR ''*'') x) of
        Inl e \<Rightarrow> Inl e
      | Inr g1 \<Rightarrow>
          (case Gate (drop 1 (dropWhile (\<lambda>c. c \<noteq> CHR ''*'') x)) of
             Inl e \<Rightarrow> Inl e
           | Inr g2 \<Rightarrow> Inr (fresh x AND (Some g1) (Some g2))))"
proof -
  have "count_char CHR ''('' x = 0" "count_char CHR ''+'' x = 0" "count_char CHR ''*'' x \<noteq> 0"
    using assms(4,5,6) count_char_pos by auto
  then show ?thesis
    using assms(1,2,3) by (subst Gate.simps) (simp add: Let_def)
qed

lemma Gate_marks:
  assumes "normalize_bool_fct_str (py_strip raw) = x" "x \<noteq> []"
    and "hd x \<notin> {quote, CHR ''*'', CHR ''+'', CHR ''!''}"
    and "CHR ''('' \<notin> set x" "CHR ''+'' \<notin> set x" "CHR ''*'' \<notin> set x"
    and "count_char quote x + count_char CHR ''!'' x \<noteq> 0"
  shows "Gate raw =
     (case Gate [hd x] of
        Inl e \<Rightarrow> Inl e
      | Inr g \<Rightarrow>
          Inr (fresh x
                (if (count_char quote x + count_char CHR ''!'' x) mod 2 \<noteq> 0 then NOT else UNITY)
                (Some g) None))"
proof -
  have "count_char CHR ''('' x = 0" "count_char CHR ''+'' x = 0" "count_char CHR ''*'' x = 0"
    using assms(4,5,6) count_char_pos by auto
  then show ?thesis
    using assms(1,2,3,7) by (subst Gate.simps) (simp add: Let_def)
qed

lemma Gate_input:
  assumes "normalize_bool_fct_str (py_strip raw) = x" "x \<noteq> []"
    and "hd x \<notin> {quote, CHR ''*'', CHR ''+'', CHR ''!''}"
    and "CHR ''('' \<notin> set x" "CHR ''+'' \<notin> set x" "CHR ''*'' \<notin> set x"
    and "quote \<notin> set x" "CHR ''!'' \<notin> set x"
  shows "Gate raw = Inr (fresh x INPUT None None)"
proof -
  have "count_char CHR ''('' x = 0" "count_char CHR ''+'' x = 0" "count_char CHR ''*'' x = 0"
    "count_char quote x = 0" "count_char CHR ''!'' x = 0"
    using assms(4,5,6,7,8) count_char_pos by auto
  then show ?thesis
    using assms(1,2,3) by (subst Gate.simps) (simp add: Let_def)
qed

subsection \<open>Parsing a sum of minterms\<close>














subsection \<open>Evaluating a sum of minterms\<close>







lemma fold_upd_map_of:
  "distinct (map fst ps) \<Longrightarrow>
     fold (\<lambda>kv m. m(fst kv \<mapsto> snd kv)) ps m0 = m0 ++ map_of ps"
proof (induction ps arbitrary: m0)
  case Nil
  then show ?case by simp
next
  case (Cons p ps)
  obtain k v where p: "p = (k, v)"
    by (cases p)
  have d: "distinct (map fst ps)" and k: "k \<notin> dom (map_of ps)"
    using Cons.prems p by (auto simp: dom_map_of_conv_image_fst)
  have "fold (\<lambda>kv m. m(fst kv \<mapsto> snd kv)) (p # ps) m0
      = fold (\<lambda>kv m. m(fst kv \<mapsto> snd kv)) ps (m0(k \<mapsto> v))"
    by (simp add: p)
  also have "\<dots> = m0(k \<mapsto> v) ++ map_of ps"
    using d by (rule Cons.IH)
  also have "\<dots> = (m0 ++ map_of ps)(k \<mapsto> v)"
    using k by (rule map_add_upd_left)
  also have "\<dots> = m0 ++ (map_of ps)(k \<mapsto> v)"
    by (rule map_add_upd [symmetric])
  also have "\<dots> = m0 ++ map_of (p # ps)"
    by (simp add: p)
  finally show ?case .
qed

lemma dict_zip_map_of:
  "distinct ks \<Longrightarrow> length ks = length vs \<Longrightarrow> dict_zip ks vs = map_of (zip ks vs)"
  by (simp add: dict_zip_def fold_upd_map_of)


lemma dom_assignment:
  assumes "distinct syms" "length syms = length inp"
  shows "dom (assignment syms inp) = set syms"
  using assms by (simp add: assignment_def dict_zip_map_of)



subsection \<open>The two tables\<close>


lemma Gate_expression:
  assumes "Gate raw = Inr c"
  shows "expression c = normalize_bool_fct_str (py_strip raw)"
  using assms
  by (subst (asm) Gate.simps)
     (auto simp: Let_def fresh_def split: if_splits sum.splits prod.splits)









lemma binary_facts: "length (binary n i) = n" "set (binary n i) \<subseteq> {0, 1}"
  by (auto simp: binary_def)

lemma rows_facts:
  assumes "inp \<in> set (itertools_product [0, 1 :: int] n)"
  shows "length inp = n" "set inp \<subseteq> {0, 1}"
proof -
  obtain i where "i < 2 ^ n" "inp = itertools_product [0, 1] n ! i"
    using assms by (metis in_set_conv_nth length_itertools_product)
  then have "inp = binary n i"
    by (simp add: nth_itertools_product)
  then show "length inp = n" "set inp \<subseteq> {0, 1}"
    using binary_facts by auto
qed



lemma generate_total:
  assumes "syms = extract_input_symbols (expression d)"
    and "rows = itertools_product [0, 1] (length syms)"
    and "\<And>inp. inp \<in> set rows \<Longrightarrow> \<exists>g'. update d (assignment syms inp) = Inr g'"
  shows "\<exists>d1. generate_truth_table d = Inr d1
     \<and> truth_table d1 = map (\<lambda>inp. (inp, out_bit d (assignment syms inp))) rows"
proof -
  obtain d' where "table_loop d syms rows []
      = Inr (d', [] @ map (\<lambda>inp. (inp, out_bit d (assignment syms inp))) rows)"
    using table_loop_total [of rows d syms "[]"] assms(3) by blast
  then show ?thesis
    using assms(1,2) by (simp add: generate_truth_table_def Let_def set_truth_table_def)
qed





section \<open>The trees the parser builds\<close>

text \<open>
  The remaining equations of \<open>Gate\<close>, for a text with parentheses, and the shape of
  every tree it returns: the node holds the normalized text, which is not empty and
  does not begin with an operator symbol, and its inputs are trees the constructor
  returned for some texts. So every such tree is wellformed.
\<close>

definition operator_symbol :: "char \<Rightarrow> bool" where
  "operator_symbol c \<longleftrightarrow> c \<in> {quote, CHR ''*'', CHR ''+'', CHR ''!''}"

lemma slices_nonempty:
  assumes "split_point x i_open i_close = Inr (s, opr)"
    and "hd x \<noteq> CHR ''*''" "hd x \<noteq> CHR ''+''"
  shows "slice_to x (s + 1) \<noteq> []" "slice_from x (s + 1) \<noteq> []"
  using split_point_bound [OF assms] by (auto simp: slice_to_def slice_from_def)

lemma split_point_operator:
  "split_point x i_open i_close = Inr (s, opr) \<Longrightarrow> opr = AND \<or> opr = OR"
  by (auto simp: split_point_def Let_def split: sum.splits if_splits)

lemma Gate_not_parens:
  assumes "normalize_bool_fct_str (py_strip raw) = x" "x \<noteq> []"
    and "hd x \<notin> {quote, CHR ''*'', CHR ''+'', CHR ''!''}"
    and "CHR ''('' \<in> set x" "count_char CHR ''('' x = count_char CHR '')'' x"
    and "parse_outer_paranthesis x = Inr (0, int (length x) - 2)"
  shows "Gate raw =
     (case Gate (slice x 1 (- 2)) of
        Inl e \<Rightarrow> Inl e
      | Inr g \<Rightarrow> Inr (fresh x NOT (Some g) None))"
proof -
  have "count_char CHR ''('' x \<noteq> 0"
    using assms(4) count_char_pos by auto
  then show ?thesis
    using assms(1,2,3,5,6) by (subst Gate.simps) (simp add: Let_def)
qed

lemma Gate_unity_parens:
  assumes "normalize_bool_fct_str (py_strip raw) = x" "x \<noteq> []"
    and "hd x \<notin> {quote, CHR ''*'', CHR ''+'', CHR ''!''}"
    and "CHR ''('' \<in> set x" "count_char CHR ''('' x = count_char CHR '')'' x"
    and "parse_outer_paranthesis x = Inr (0, int (length x) - 1)"
  shows "Gate raw =
     (case Gate (slice x 1 (- 1)) of
        Inl e \<Rightarrow> Inl e
      | Inr g \<Rightarrow> Inr (fresh x UNITY (Some g) None))"
proof -
  have "count_char CHR ''('' x \<noteq> 0"
    using assms(4) count_char_pos by auto
  then show ?thesis
    using assms(1,2,3,5,6) by (subst Gate.simps) (simp add: Let_def)
qed

lemma Gate_split:
  assumes "normalize_bool_fct_str (py_strip raw) = x" "x \<noteq> []"
    and "hd x \<notin> {quote, CHR ''*'', CHR ''+'', CHR ''!''}"
    and "CHR ''('' \<in> set x" "count_char CHR ''('' x = count_char CHR '')'' x"
    and "parse_outer_paranthesis x = Inr (i_open, i_close)"
    and "\<not> (i_open = 0 \<and> i_close = int (length x) - 2)"
    and "\<not> (i_open = 0 \<and> i_close = int (length x) - 1)"
  shows "Gate raw =
     (case split_point x i_open i_close of
        Inl e \<Rightarrow> Inl e
      | Inr (split_at, opr) \<Rightarrow>
          (case Gate (slice_to x (split_at + 1)) of
             Inl e \<Rightarrow> Inl e
           | Inr g1 \<Rightarrow>
               (case Gate (slice_from x (split_at + 1)) of
                  Inl e \<Rightarrow> Inl e
                | Inr g2 \<Rightarrow> Inr (fresh x opr (Some g1) (Some g2)))))"
proof -
  have c: "count_char CHR ''('' x \<noteq> 0"
    using assms(4) count_char_pos by auto
  have hdx: "hd x \<noteq> CHR ''*''" "hd x \<noteq> CHR ''+''"
    using assms(3) by auto
  have "Gate raw =
     (case split_point x i_open i_close of
        Inl e \<Rightarrow> Inl e
      | Inr (split_at, opr) \<Rightarrow>
          (case (if slice_to x (split_at + 1) = [] then Inr None
                 else case Gate (slice_to x (split_at + 1)) of
                        Inl e \<Rightarrow> Inl e | Inr g \<Rightarrow> Inr (Some g)) of
             Inl e \<Rightarrow> Inl e
           | Inr g1 \<Rightarrow>
               (case (if slice_from x (split_at + 1) = [] then Inr None
                      else case Gate (slice_from x (split_at + 1)) of
                             Inl e \<Rightarrow> Inl e | Inr g \<Rightarrow> Inr (Some g)) of
                  Inl e \<Rightarrow> Inl e
                | Inr g2 \<Rightarrow> Inr (fresh x opr g1 g2))))"
    using c assms(1,2,3,5,6,7,8) by (subst Gate.simps) (auto simp add: Let_def)
  also have "\<dots> =
     (case split_point x i_open i_close of
        Inl e \<Rightarrow> Inl e
      | Inr (split_at, opr) \<Rightarrow>
          (case Gate (slice_to x (split_at + 1)) of
             Inl e \<Rightarrow> Inl e
           | Inr g1 \<Rightarrow>
               (case Gate (slice_from x (split_at + 1)) of
                  Inl e \<Rightarrow> Inl e
                | Inr g2 \<Rightarrow> Inr (fresh x opr (Some g1) (Some g2)))))"
  proof (cases "split_point x i_open i_close")
    case (Inl e)
    then show ?thesis by simp
  next
    case (Inr p)
    obtain s opr where p: "p = (s, opr)"
      by (cases p)
    have "slice_to x (s + 1) \<noteq> []" "slice_from x (s + 1) \<noteq> []"
      using slices_nonempty [OF _ hdx] Inr p by blast+
    then show ?thesis
      using Inr p by (simp split: sum.splits)
  qed
  finally show ?thesis .
qed

lemma count_char_zero: "count_char c s = 0 \<longleftrightarrow> c \<notin> set s"
  using count_char_pos [of c s] by auto

lemma Gate_Inr_facts:
  assumes "Gate raw = Inr g" "x = normalize_bool_fct_str (py_strip raw)"
  shows "x \<noteq> []" "hd x \<notin> {quote, CHR ''*'', CHR ''+'', CHR ''!''}"
    "CHR ''('' \<in> set x \<Longrightarrow> count_char CHR ''('' x = count_char CHR '')'' x"
    "CHR ''('' \<in> set x \<Longrightarrow> \<exists>i_open i_close. parse_outer_paranthesis x = Inr (i_open, i_close)"
proof -
  from assms(1) show "x \<noteq> []"
    unfolding assms(2) by (subst (asm) Gate.simps) (auto simp: Let_def split: if_splits)
  from assms(1) show "hd x \<notin> {quote, CHR ''*'', CHR ''+'', CHR ''!''}"
    unfolding assms(2) by (subst (asm) Gate.simps) (auto simp: Let_def split: if_splits)
  from assms(1) show "count_char CHR ''('' x = count_char CHR '')'' x" if "CHR ''('' \<in> set x"
    using that unfolding assms(2)
    by (subst (asm) Gate.simps) (auto simp: Let_def count_char_zero split: if_splits)
  from assms(1) show "\<exists>i_open i_close. parse_outer_paranthesis x = Inr (i_open, i_close)"
    if "CHR ''('' \<in> set x"
    using that unfolding assms(2)
    by (subst (asm) Gate.simps) (auto simp: Let_def count_char_zero split: if_splits sum.splits)
qed

lemma Gate_shape:
  assumes "Gate raw = Inr g"
  shows "expression g = normalize_bool_fct_str (py_strip raw)
     \<and> expression g \<noteq> [] \<and> \<not> operator_symbol (hd (expression g))
     \<and> ((operator g = INPUT \<and> inp_1 g = None \<and> inp_2 g = None)
        \<or> ((operator g = NOT \<or> operator g = UNITY) \<and> inp_2 g = None
             \<and> (\<exists>s g1. inp_1 g = Some g1 \<and> Gate s = Inr g1))
        \<or> ((operator g = AND \<or> operator g = OR)
             \<and> (\<exists>s1 s2 g1 g2. inp_1 g = Some g1 \<and> inp_2 g = Some g2
                    \<and> Gate s1 = Inr g1 \<and> Gate s2 = Inr g2)))"
proof -
  define x where "x = normalize_bool_fct_str (py_strip raw)"
  note f = Gate_Inr_facts [OF assms x_def]
  have n: "normalize_bool_fct_str (py_strip raw) = x"
    by (simp add: x_def)
  have base: "expression g = normalize_bool_fct_str (py_strip raw)
     \<and> expression g \<noteq> [] \<and> \<not> operator_symbol (hd (expression g))"
    using Gate_expression [OF assms] f(1,2) by (simp add: x_def operator_symbol_def)
  have shape: "(operator g = INPUT \<and> inp_1 g = None \<and> inp_2 g = None)
        \<or> ((operator g = NOT \<or> operator g = UNITY) \<and> inp_2 g = None
             \<and> (\<exists>s g1. inp_1 g = Some g1 \<and> Gate s = Inr g1))
        \<or> ((operator g = AND \<or> operator g = OR)
             \<and> (\<exists>s1 s2 g1 g2. inp_1 g = Some g1 \<and> inp_2 g = Some g2
                    \<and> Gate s1 = Inr g1 \<and> Gate s2 = Inr g2))"
  proof (cases "CHR ''('' \<in> set x")
    case True
    obtain i_open i_close where po: "parse_outer_paranthesis x = Inr (i_open, i_close)"
      using f(4) [OF True] by blast
    consider (neg) "i_open = 0 \<and> i_close = int (length x) - 2"
      | (unity) "i_open = 0 \<and> i_close = int (length x) - 1"
      | (split) "\<not> (i_open = 0 \<and> i_close = int (length x) - 2)"
          "\<not> (i_open = 0 \<and> i_close = int (length x) - 1)"
      by blast
    then show ?thesis
    proof cases
      case neg
      then have "parse_outer_paranthesis x = Inr (0, int (length x) - 2)"
        using po by simp
      from Gate_not_parens [OF n f(1,2) True f(3) [OF True] this] assms
      obtain g1 where "Gate (slice x 1 (- 2)) = Inr g1" "g = fresh x NOT (Some g1) None"
        by (auto split: sum.splits)
      then show ?thesis
        by (auto simp: fresh_def)
    next
      case unity
      then have "parse_outer_paranthesis x = Inr (0, int (length x) - 1)"
        using po by simp
      from Gate_unity_parens [OF n f(1,2) True f(3) [OF True] this] assms
      obtain g1 where "Gate (slice x 1 (- 1)) = Inr g1" "g = fresh x UNITY (Some g1) None"
        by (auto split: sum.splits)
      then show ?thesis
        by (auto simp: fresh_def)
    next
      case split
      from Gate_split [OF n f(1,2) True f(3) [OF True] po split] assms
      obtain s opr g1 g2 where sp: "split_point x i_open i_close = Inr (s, opr)"
        and "Gate (slice_to x (s + 1)) = Inr g1" "Gate (slice_from x (s + 1)) = Inr g2"
        "g = fresh x opr (Some g1) (Some g2)"
        by (auto split: sum.splits)
      then show ?thesis
        using split_point_operator [OF sp] by (auto simp: fresh_def)
    qed
  next
    case False
    note no_par = this
    show ?thesis
    proof (cases "CHR ''+'' \<in> set x")
      case True
      from Gate_or [OF n f(1,2) no_par True] assms
      obtain g1 g2 where "Gate (takeWhile (\<lambda>c. c \<noteq> CHR ''+'') x) = Inr g1"
        "Gate (drop 1 (dropWhile (\<lambda>c. c \<noteq> CHR ''+'') x)) = Inr g2"
        "g = fresh x OR (Some g1) (Some g2)"
        by (auto split: sum.splits)
      then show ?thesis
        by (auto simp: fresh_def)
    next
      case False
      note no_plus = this
      show ?thesis
      proof (cases "CHR ''*'' \<in> set x")
        case True
        from Gate_and [OF n f(1,2) no_par no_plus True] assms
        obtain g1 g2 where "Gate (takeWhile (\<lambda>c. c \<noteq> CHR ''*'') x) = Inr g1"
          "Gate (drop 1 (dropWhile (\<lambda>c. c \<noteq> CHR ''*'') x)) = Inr g2"
          "g = fresh x AND (Some g1) (Some g2)"
          by (auto split: sum.splits)
        then show ?thesis
          by (auto simp: fresh_def)
      next
        case False
        note no_star = this
        show ?thesis
        proof (cases "count_char quote x + count_char CHR ''!'' x \<noteq> 0")
          case True
          from Gate_marks [OF n f(1,2) no_par no_plus no_star True] assms
          obtain g1 where "Gate [hd x] = Inr g1"
            "g = fresh x (if (count_char quote x + count_char CHR ''!'' x) mod 2 \<noteq> 0
                          then NOT else UNITY) (Some g1) None"
            by (auto split: sum.splits)
          then show ?thesis
            by (auto simp: fresh_def)
        next
          case False
          then have "quote \<notin> set x" "CHR ''!'' \<notin> set x"
            by (simp_all add: count_char_zero)
          from Gate_input [OF n f(1,2) no_par no_plus no_star this] assms
          show ?thesis
            by (auto simp: fresh_def)
        qed
      qed
    qed
  qed
  from base shape show ?thesis
    by blast
qed

fun no_leading_operator :: "gate \<Rightarrow> bool" where
  "no_leading_operator (Node expr opr i1 i2 out tt) =
     (expr \<noteq> [] \<and> \<not> operator_symbol (hd expr)
      \<and> (case i1 of None \<Rightarrow> True | Some a \<Rightarrow> no_leading_operator a)
      \<and> (case i2 of None \<Rightarrow> True | Some b \<Rightarrow> no_leading_operator b))"

lemma Gate_nodes: "Gate raw = Inr g \<Longrightarrow> wellformed g \<and> no_leading_operator g"
proof (induction g arbitrary: raw)
  case (Node expr opr i1 i2 out tt)
  note s = Gate_shape [OF Node.prems]
  have c1: "wellformed a \<and> no_leading_operator a" if "i1 = Some a" "Gate s1 = Inr a" for a s1
    using Node.IH(1) [of a s1] that by simp
  have c2: "wellformed b \<and> no_leading_operator b" if "i2 = Some b" "Gate s2 = Inr b" for b s2
    using Node.IH(2) [of b s2] that by simp
  from s c1 c2 show ?case
    by (cases opr) auto
qed


section \<open>Leading operators\<close>

lemma strip_with_head:
  assumes "s \<noteq> []" "\<not> P (hd s)"
  shows "strip_with P s \<noteq> [] \<and> hd (strip_with P s) = hd s"
proof -
  obtain a t where s: "s = a # t"
    using assms(1) by (cases s) auto
  then have "dropWhile P (rev s) = dropWhile P (rev t) @ [a]"
    using assms(2) by (simp add: dropWhile_append3)
  then have "strip_with P s = a # rev (dropWhile P (rev t))"
    using assms(2) s by (simp add: strip_with_def)
  then show ?thesis
    using s by simp
qed

lemma cleanup_head:
  assumes "s \<noteq> []" "hd s = quote \<or> hd s = CHR ''!''"
  shows "cleanup s \<noteq> [] \<and> hd (cleanup s) = quote"
proof -
  obtain a t where s: "s = a # t"
    using assms(1) by (cases s) auto
  let ?u = "map (\<lambda>c. if c = CHR ''!'' then quote else c)
         (filter (\<lambda>c. c \<noteq> backslash) (filter (\<lambda>c. c \<noteq> CHR '' '') (map upper s)))"
  have "upper a = a"
    using assms(2) s by (auto simp: upper_def)
  then have u: "?u \<noteq> [] \<and> hd ?u = quote"
    using assms(2) s by auto
  then have 1: "strip_char CHR ''*'' ?u \<noteq> [] \<and> hd (strip_char CHR ''*'' ?u) = quote"
    unfolding strip_char_def using strip_with_head [of ?u "\<lambda>x. x = CHR ''*''"] by simp
  have "strip_char CHR ''+'' (strip_char CHR ''*'' ?u) \<noteq> []
      \<and> hd (strip_char CHR ''+'' (strip_char CHR ''*'' ?u)) = quote"
    unfolding strip_char_def [of "CHR ''+''"]
    using strip_with_head [of "strip_char CHR ''*'' ?u" "\<lambda>x. x = CHR ''+''"] 1 by simp
  then show ?thesis
    by (simp add: cleanup_def)
qed

lemma normalize_head:
  assumes "raw \<noteq> []" "hd raw = quote \<or> hd raw = CHR ''!''"
  shows "normalize_bool_fct_str (py_strip raw) \<noteq> []
     \<and> hd (normalize_bool_fct_str (py_strip raw)) = quote"
proof -
  have "\<not> isspace (hd raw)"
    using assms(2) by (auto simp: isspace_def)
  then have "py_strip raw \<noteq> [] \<and> hd (py_strip raw) = hd raw"
    unfolding py_strip_def using strip_with_head assms(1) by blast
  then have "cleanup (py_strip raw) \<noteq> [] \<and> hd (cleanup (py_strip raw)) = quote"
    using cleanup_head assms(2) by simp
  then show ?thesis
    by (simp add: normalize_eq with_ands_Nil_iff hd_with_ands)
qed

lemma Gate_leading:
  assumes "normalize_bool_fct_str (py_strip raw) \<noteq> []"
    and "hd (normalize_bool_fct_str (py_strip raw)) \<in> {quote, CHR ''*'', CHR ''+'', CHR ''!''}"
  shows "Gate raw = Inl LeadingOperator"
  using assms by (subst Gate.simps) (simp add: Let_def)

text \<open>
  C6, as the code has it. The constructor fails with \<open>LeadingOperator\<close> whenever the
  normalized text is not empty and begins with an operator symbol; every text that
  begins with \<open>'\<close> or \<open>!\<close> is such a text. Leading \<open>*\<close> and \<open>+\<close> markers are
  stripped by the normalizer before the check, so \<open>+A\<close> parses as \<open>A\<close>. Every
  sub-expression is parsed by the same constructor: in a tree that the constructor
  returns, no node's expression begins with an operator symbol.
\<close>

theorem leading_operator:
  "(normalize_bool_fct_str (py_strip raw) \<noteq> []
      \<and> hd (normalize_bool_fct_str (py_strip raw)) \<in> {quote, CHR ''*'', CHR ''+'', CHR ''!''}
     \<longrightarrow> Gate raw = Inl LeadingOperator)
   \<and> (raw \<noteq> [] \<and> hd raw \<in> {quote, CHR ''!''} \<longrightarrow> Gate raw = Inl LeadingOperator)
   \<and> (Gate raw = Inr g \<longrightarrow> no_leading_operator g)"
proof (intro conjI impI)
  assume "normalize_bool_fct_str (py_strip raw) \<noteq> []
      \<and> hd (normalize_bool_fct_str (py_strip raw)) \<in> {quote, CHR ''*'', CHR ''+'', CHR ''!''}"
  then show "Gate raw = Inl LeadingOperator"
    using Gate_leading by blast
next
  assume "raw \<noteq> [] \<and> hd raw \<in> {quote, CHR ''!''}"
  then have "normalize_bool_fct_str (py_strip raw) \<noteq> []
     \<and> hd (normalize_bool_fct_str (py_strip raw)) = quote"
    using normalize_head [of raw] by auto
  then show "Gate raw = Inl LeadingOperator"
    using Gate_leading [of raw] by simp
next
  assume "Gate raw = Inr g"
  then show "no_leading_operator g"
    using Gate_nodes by blast
qed

theorem leading_operator_counterexample:
  "\<not> (\<forall>raw. raw \<noteq> [] \<and> hd raw \<in> {CHR ''*'', CHR ''+'', quote, CHR ''!''}
         \<longrightarrow> Gate raw = Inl LeadingOperator)"
proof
  assume "\<forall>raw. raw \<noteq> [] \<and> hd raw \<in> {CHR ''*'', CHR ''+'', quote, CHR ''!''}
         \<longrightarrow> Gate raw = Inl LeadingOperator"
  then have "Gate ''+A'' = Inl LeadingOperator"
    by simp
  moreover have "Gate ''+A'' = Inr (fresh ''A'' INPUT None None)"
    by code_simp
  ultimately show False
    by simp
qed

theorem leading_operator_witness:
  "Gate (quote # ''A'') = Inl LeadingOperator \<and> Gate ''!A+B'' = Inl LeadingOperator
   \<and> Gate ''+*A'' = Inl LeadingOperator \<and> Gate (''A+'' @ [quote] @ ''B'') = Inl LeadingOperator
   \<and> (\<exists>g. Gate ''(A+B)C'' = Inr g \<and> no_leading_operator g)"
proof -
  have 1: "Gate (quote # ''A'') = Inl LeadingOperator"
    using leading_operator [of "quote # ''A''"] by simp
  have 2: "Gate ''!A+B'' = Inl LeadingOperator"
    using leading_operator [of "''!A+B''"] by simp
  have "normalize_bool_fct_str (py_strip ''+*A'') = ''*A''"
    by code_simp
  then have 3: "Gate ''+*A'' = Inl LeadingOperator"
    using leading_operator [of "''+*A''"] by simp
  have 4: "Gate (''A+'' @ [quote] @ ''B'') = Inl LeadingOperator"
    by code_simp
  have "case Gate ''(A+B)C'' of Inl e \<Rightarrow> False | Inr g \<Rightarrow> True"
    by code_simp
  then obtain g where g: "Gate ''(A+B)C'' = Inr g"
    by (cases "Gate ''(A+B)C''") auto
  then have "no_leading_operator g"
    using leading_operator [of "''(A+B)C''" g] by simp
  with 1 2 3 4 g show ?thesis
    by blast
qed

section \<open>The truth table of a circuit\<close>

lemma generate_succeeds:
  assumes "wellformed circuit"
    and "required circuit \<subseteq> set (extract_input_symbols (expression circuit))"
  shows "\<exists>circuit'. generate_truth_table circuit = Inr circuit'"
proof -
  define syms where "syms = extract_input_symbols (expression circuit)"
  define rows where "rows = itertools_product [0, 1 :: int] (length syms)"
  have d: "distinct syms"
    by (simp add: syms_def extract_input_symbols_set distinct_map inj_on_def)
  have "\<exists>g'. update circuit (assignment syms inp) = Inr g'" if mem: "inp \<in> set rows" for inp
  proof -
    have "length syms = length inp"
      using rows_facts(1) [of inp "length syms"] mem rows_def by simp
    then have "dom (assignment syms inp) = set syms"
      using d by (intro dom_assignment)
    then have "required circuit \<subseteq> dom (assignment syms inp)"
      using assms(2) syms_def by simp
    then show ?thesis
      using update_wellformed [OF assms(1), of "assignment syms inp"] by blast
  qed
  then show ?thesis
    using generate_total [OF syms_def rows_def] by blast
qed

text \<open>
  C2. The symbols of a circuit are the distinct letters of its expression in descending
  order. With \<open>N\<close> of them, a generated table has \<open>2 ^ N\<close> rows, and the inputs of
  row \<open>i\<close> are the \<open>N\<close> binary digits of \<open>i\<close>: the first symbol has the most
  significant bit, which changes least often, the last symbol the least significant one.
  The table is generated whenever the circuit is wellformed and each of its input nodes
  holds one of these symbols.
\<close>

theorem truth_table_rows:
  "(generate_truth_table circuit = Inr circuit' \<longrightarrow>
      extract_input_symbols (expression circuit)
        = map (\<lambda>c. [c]) (rev (sorted_list_of_set {c \<in> set (expression circuit). isalpha c}))
      \<and> length (truth_table circuit') = 2 ^ card {c \<in> set (expression circuit). isalpha c}
      \<and> (\<forall>i < 2 ^ card {c \<in> set (expression circuit). isalpha c}.
            fst (truth_table circuit' ! i)
              = binary (card {c \<in> set (expression circuit). isalpha c}) i))
   \<and> (wellformed circuit
        \<and> required circuit \<subseteq> set (extract_input_symbols (expression circuit))
      \<longrightarrow> (\<exists>generated. generate_truth_table circuit = Inr generated))"
proof (intro conjI impI)
  assume "wellformed circuit
      \<and> required circuit \<subseteq> set (extract_input_symbols (expression circuit))"
  then show "\<exists>generated. generate_truth_table circuit = Inr generated"
    using generate_succeeds by blast
next
  let ?n = "card {c \<in> set (expression circuit). isalpha c}"
  let ?syms = "extract_input_symbols (expression circuit)"
  assume gen: "generate_truth_table circuit = Inr circuit'"
  have n: "length ?syms = ?n"
    by (rule length_extract_input_symbols)
  from gen obtain c1 table where
    loop: "table_loop circuit ?syms (itertools_product [0, 1] ?n) [] = Inr (c1, table)"
    and c': "circuit' = set_truth_table c1 table"
    by (auto simp: generate_truth_table_def Let_def n split: sum.splits)
  have t: "truth_table circuit' = table"
    by (simp add: c' set_truth_table_def)
  have rows: "map fst table = itertools_product [0, 1] ?n"
    using table_loop_rows [OF loop] by simp
  then have len: "length table = 2 ^ ?n"
    by (metis length_itertools_product length_map)
  show "extract_input_symbols (expression circuit)
      = map (\<lambda>c. [c]) (rev (sorted_list_of_set {c \<in> set (expression circuit). isalpha c}))"
    by (rule extract_input_symbols_set)
  show "length (truth_table circuit') = 2 ^ ?n"
    using t len by simp
  show "\<forall>i < 2 ^ ?n. fst (truth_table circuit' ! i) = binary ?n i"
  proof (intro allI impI)
    fix i :: nat
    assume i: "i < 2 ^ ?n"
    then have "fst (table ! i) = map fst table ! i"
      using len by simp
    then show "fst (truth_table circuit' ! i) = binary ?n i"
      using rows nth_itertools_product [OF i] t by simp
  qed
qed

theorem truth_table_rows_witness:
  "\<exists>c c'. Gate ''A+B'' = Inr c \<and> generate_truth_table c = Inr c'
     \<and> extract_input_symbols (expression c) = [''B'', ''A'']
     \<and> length (truth_table c') = 4
     \<and> fst (truth_table c' ! 0) = [0, 0] \<and> fst (truth_table c' ! 1) = [0, 1]
     \<and> fst (truth_table c' ! 2) = [1, 0] \<and> fst (truth_table c' ! 3) = [1, 1]"
proof -
  let ?c = "fresh ''A+B'' OR (Some (fresh ''A'' INPUT None None)) (Some (fresh ''B'' INPUT None None))"
  have g: "Gate ''A+B'' = Inr ?c"
    by code_simp
  have s: "extract_input_symbols (expression ?c) = [''B'', ''A'']"
    by code_simp
  have w: "wellformed ?c" and r: "required ?c = {''A'', ''B''}"
    by (auto simp: fresh_def)
  have "required ?c \<subseteq> set (extract_input_symbols (expression ?c))"
    unfolding s r by simp
  then obtain c' where c': "generate_truth_table ?c = Inr c'"
    using truth_table_rows [of ?c] w by blast
  have "card {c \<in> set (expression ?c). isalpha c} = length (extract_input_symbols (expression ?c))"
    by (simp add: length_extract_input_symbols)
  then have n: "card {c \<in> set (expression ?c). isalpha c} = 2"
    using s by simp
  have b: "binary 2 0 = [0, 0]" "binary 2 1 = [0, 1]" "binary 2 2 = [1, 0]" "binary 2 3 = [1, 1]"
    by code_simp+
  have "length (truth_table c') = 4 \<and> fst (truth_table c' ! 0) = [0, 0]
      \<and> fst (truth_table c' ! 1) = [0, 1] \<and> fst (truth_table c' ! 2) = [1, 0]
      \<and> fst (truth_table c' ! 3) = [1, 1]"
    using truth_table_rows [of ?c c'] c' b unfolding n by simp
  with g c' s show ?thesis
    by blast
qed

end
